theory Spec2Isabelle
  imports Main "HOL-Library.AList"
begin

unbundle bit_operations_syntax

section \<open>Shell-glob matching\<close>

text \<open>
  The emitter resolves topics with \<^verbatim>\<open>path.Match\<close> of Go's standard library, which
  lies outside the repository. Every operation of the emitter below therefore takes the
  matcher as a parameter \<open>pm\<close>: \<open>pm pattern name\<close> is \<open>Inl ErrBadPattern\<close> when the call
  reports a malformed pattern and \<open>Inr matched\<close> otherwise. The general theorems hold for
  any such \<open>pm\<close>.

  To evaluate the operations on concrete topics, \<open>path_Match\<close> transcribes the
  library's algorithm (\<^verbatim>\<open>scanChunk\<close>, \<^verbatim>\<open>matchChunk\<close>, \<^verbatim>\<open>getEsc\<close>, \<^verbatim>\<open>Match\<close>) for strings of
  single-byte characters, where \<^verbatim>\<open>utf8.DecodeRuneInString\<close> returns the byte itself with
  width 1. A rune is represented by its code, a natural number.
\<close>

datatype match_error = ErrBadPattern

type_synonym matcher = "string \<Rightarrow> string \<Rightarrow> match_error + bool"

text \<open>\<^verbatim>\<open>scanChunk\<close>: strip the leading stars, then scan up to the next star that is not
  inside a bracket expression; a backslash skips the character after it.\<close>

fun skipStars :: "string \<Rightarrow> bool \<Rightarrow> bool \<times> string" where
  "skipStars [] star = (star, [])"
| "skipStars (c # cs) star = (if c = CHR ''*'' then skipStars cs True else (star, c # cs))"

fun scan :: "string \<Rightarrow> bool \<Rightarrow> string \<times> string" where
  "scan [] inrange = ([], [])"
| "scan [c] inrange =
     (if c = CHR ''*'' \<and> \<not> inrange then ([], [c]) else ([c], []))"
| "scan (c # d # ds) inrange =
     (if c = CHR 0x5C then (case scan ds inrange of (a, b) \<Rightarrow> (c # d # a, b))
      else if c = CHR ''['' then (case scan (d # ds) True of (a, b) \<Rightarrow> (c # a, b))
      else if c = CHR '']'' then (case scan (d # ds) False of (a, b) \<Rightarrow> (c # a, b))
      else if c = CHR ''*'' \<and> \<not> inrange then ([], c # d # ds)
      else (case scan (d # ds) inrange of (a, b) \<Rightarrow> (c # a, b)))"

definition scanChunk :: "string \<Rightarrow> bool \<times> string \<times> string" where
  "scanChunk pattern =
     (case skipStars pattern False of (star, p) \<Rightarrow>
        (case scan p False of (chunk, rest) \<Rightarrow> (star, chunk, rest)))"

text \<open>\<^verbatim>\<open>getEsc\<close>: one possibly escaped character of a bracket expression, with the rest of
  the chunk; a bracket expression that ends here is malformed.\<close>

definition getEsc :: "string \<Rightarrow> match_error + (nat \<times> string)" where
  "getEsc chunk =
     (if chunk = [] \<or> hd chunk = CHR ''-'' \<or> hd chunk = CHR '']'' then Inl ErrBadPattern
      else let chunk1 = (if hd chunk = CHR 0x5C then tl chunk else chunk) in
        if chunk1 = [] then Inl ErrBadPattern
        else if tl chunk1 = [] then Inl ErrBadPattern
        else Inr (of_char (hd chunk1), tl chunk1))"

lemma getEsc_shorter: "getEsc c = Inr (r, n) \<Longrightarrow> length n < length c"
  by (cases c; cases "tl c") (auto simp: getEsc_def Let_def split: if_splits)

lemma getEsc_nonempty: "getEsc c = Inr (r, n) \<Longrightarrow> n \<noteq> []"
  by (auto simp: getEsc_def Let_def split: if_splits)

lemma getEsc_tl_shorter: "getEsc (tl c) = Inr (r, n) \<Longrightarrow> length n < length c"
  using getEsc_shorter[of "tl c" r n] by (cases c) auto

lemma getEsc_twice_shorter:
  "getEsc c = Inr (r, n) \<Longrightarrow> getEsc (tl n) = Inr (r', n') \<Longrightarrow> length n' < length c"
  using getEsc_shorter[of c r n] getEsc_tl_shorter[of n r' n'] by simp

text \<open>The loop of \<^verbatim>\<open>matchChunk\<close> over the ranges of a bracket expression: \<open>r\<close> is the rune
  read from the name (0 once the match has failed), \<open>nrange\<close> counts the ranges seen; the
  result is whether \<open>r\<close> lies in one of them, and the chunk after the closing bracket.\<close>

function parseRanges :: "nat \<Rightarrow> string \<Rightarrow> nat \<Rightarrow> bool \<Rightarrow> match_error + (bool \<times> string)" where
  "parseRanges r chunk nrange match =
     (if chunk \<noteq> [] \<and> hd chunk = CHR '']'' \<and> nrange > 0 then Inr (match, tl chunk)
      else case getEsc chunk of
        Inl e \<Rightarrow> Inl e
      | Inr (lo, chunk1) \<Rightarrow>
          if hd chunk1 = CHR ''-'' then
            (case getEsc (tl chunk1) of
               Inl e \<Rightarrow> Inl e
             | Inr (hi, chunk2) \<Rightarrow>
                 parseRanges r chunk2 (nrange + 1) (match \<or> (lo \<le> r \<and> r \<le> hi)))
          else parseRanges r chunk1 (nrange + 1) (match \<or> (lo \<le> r \<and> r \<le> lo)))"
  by pat_completeness auto
termination
  by (relation "measure (\<lambda>(r, chunk, nrange, match). length chunk)")
     (auto intro: getEsc_twice_shorter dest: getEsc_shorter)

declare parseRanges.simps [simp del]

lemma parseRanges_shorter:
  "parseRanges r chunk nrange match = Inr (m, rest) \<Longrightarrow> length rest < Suc (length chunk)"
proof (induction r chunk nrange match rule: parseRanges.induct)
  case (1 r chunk nrange match)
  show ?case
  proof (cases "chunk \<noteq> [] \<and> hd chunk = CHR '']'' \<and> nrange > 0")
    case True
    with "1.prems" have "rest = tl chunk" by (subst (asm) parseRanges.simps) simp
    then show ?thesis by (cases chunk) auto
  next
    case False
    have eq: "parseRanges r chunk nrange match =
      (case getEsc chunk of
        Inl e \<Rightarrow> Inl e
      | Inr (lo, chunk1) \<Rightarrow>
          if hd chunk1 = CHR ''-'' then
            (case getEsc (tl chunk1) of
               Inl e \<Rightarrow> Inl e
             | Inr (hi, chunk2) \<Rightarrow>
                 parseRanges r chunk2 (nrange + 1) (match \<or> (lo \<le> r \<and> r \<le> hi)))
          else parseRanges r chunk1 (nrange + 1) (match \<or> (lo \<le> r \<and> r \<le> lo)))"
      by (subst parseRanges.simps, subst if_not_P[OF False], rule refl)
    note nf = False
    show ?thesis
    proof (cases "getEsc chunk")
      case (Inl e)
      with eq "1.prems" show ?thesis by simp
    next
      case (Inr p)
      obtain lo chunk1 where p: "p = (lo, chunk1)" by (cases p)
      have l1: "length chunk1 < length chunk" using Inr p getEsc_shorter by blast
      show ?thesis
      proof (cases "hd chunk1 = CHR ''-''")
        case True
        note dash = True
        show ?thesis
        proof (cases "getEsc (tl chunk1)")
          case (Inl e)
          with eq \<open>getEsc chunk = Inr p\<close> p dash "1.prems" show ?thesis
            by simp
        next
          case (Inr q)
          obtain hi chunk2 where q: "q = (hi, chunk2)" by (cases q)
          have l2: "length chunk2 < length chunk1" using Inr q getEsc_tl_shorter by blast
          have "parseRanges r chunk2 (nrange + 1) (match \<or> (lo \<le> r \<and> r \<le> hi)) = Inr (m, rest)"
            using eq \<open>getEsc chunk = Inr p\<close> p dash Inr q "1.prems"
            by simp
          from "1.IH"(1)[OF nf \<open>getEsc chunk = Inr p\<close> p[symmetric] dash Inr q[symmetric] this]
          show ?thesis using l1 l2 by simp
        qed
      next
        case False
        have "parseRanges r chunk1 (nrange + 1) (match \<or> (lo \<le> r \<and> r \<le> lo)) = Inr (m, rest)"
          using eq Inr p False "1.prems"
          by simp
        from "1.IH"(2)[OF nf Inr p[symmetric] False this]
        show ?thesis using l1 by simp
      qed
    qed
  qed
qed


lemma tl_shorter: "c \<noteq> [] \<Longrightarrow> length (tl c) < length c"
  by (cases c) auto

lemma tl_tl_shorter: "c \<noteq> [] \<Longrightarrow> length (tl (tl c)) < length c"
  by (cases c; cases "tl c") auto

lemma parseRanges_tl_shorter:
  "parseRanges r (tl c) n m = Inr (b, c') \<Longrightarrow> c \<noteq> [] \<Longrightarrow> length c' < length c"
  using parseRanges_shorter[of r "tl c" n m b c'] by (cases c) auto

lemma parseRanges_tl_tl_shorter:
  "parseRanges r (tl (tl c)) n m = Inr (b, c') \<Longrightarrow> c \<noteq> [] \<Longrightarrow> length c' < length c"
  using parseRanges_shorter[of r "tl (tl c)" n m b c'] by (cases c; cases "tl c") auto

lemma parseRanges_class_shorter:
  "parseRanges r (if neg then tl (tl c) else tl c) n m = Inr (b, c') \<Longrightarrow> c \<noteq> [] \<Longrightarrow>
   length c' < length c"
  by (cases neg) (auto dest: parseRanges_tl_shorter parseRanges_tl_tl_shorter)

text \<open>\<^verbatim>\<open>matchChunk\<close>: the chunk (literals, \<^verbatim>\<open>?\<close>, bracket expressions) against the beginning
  of \<open>s\<close>. After the match has failed the loop goes on through the chunk to check its
  syntax and no longer reads \<open>s\<close>. The result is the rest of \<open>s\<close> when the chunk matches.\<close>

function matchChunk_loop :: "string \<Rightarrow> string \<Rightarrow> bool \<Rightarrow> match_error + string option" where
  "matchChunk_loop chunk s failed0 =
     (if chunk = [] then (if failed0 then Inr None else Inr (Some s))
      else
        let failed = (failed0 \<or> s = []) in
        if hd chunk = CHR ''['' then
          let r = (if failed then 0 else of_char (hd s));
              s1 = (if failed then s else tl s);
              chunk1 = tl chunk;
              negated = (chunk1 \<noteq> [] \<and> hd chunk1 = CHR ''^'');
              chunk2 = (if negated then tl chunk1 else chunk1)
          in (case parseRanges r chunk2 0 False of
                Inl e \<Rightarrow> Inl e
              | Inr (match, chunk3) \<Rightarrow>
                  matchChunk_loop chunk3 s1 (failed \<or> match = negated))
        else if hd chunk = CHR ''?'' then
          matchChunk_loop (tl chunk) (if failed then s else tl s) (failed \<or> hd s = CHR ''/'')
        else if hd chunk = CHR 0x5C then
          (if tl chunk = [] then Inl ErrBadPattern
           else matchChunk_loop (tl (tl chunk)) (if failed then s else tl s)
                  (failed \<or> hd (tl chunk) \<noteq> hd s))
        else
          matchChunk_loop (tl chunk) (if failed then s else tl s) (failed \<or> hd chunk \<noteq> hd s))"
  by pat_completeness auto
termination
  by (relation "measure (\<lambda>(chunk, s, failed0). length chunk)")
     (auto dest: parseRanges_class_shorter simp: tl_shorter tl_tl_shorter)

declare matchChunk_loop.simps [simp del]

definition matchChunk :: "string \<Rightarrow> string \<Rightarrow> match_error + string option" where
  "matchChunk chunk s = matchChunk_loop chunk s False"

text \<open>The loop of \<^verbatim>\<open>Match\<close> after a star: the chunk is tried after skipping one more
  character of the name each time, never across a slash; \<open>lastc\<close> says that the chunk is
  the last one, which must then use up the name.\<close>

fun starLoop :: "string \<Rightarrow> bool \<Rightarrow> string \<Rightarrow> match_error + string option" where
  "starLoop chunk lastc [] = Inr None"
| "starLoop chunk lastc (c # cs) =
     (if c = CHR ''/'' then Inr None
      else case matchChunk chunk cs of
        Inl e \<Rightarrow> Inl e
      | Inr (Some t) \<Rightarrow> if lastc \<and> t \<noteq> [] then starLoop chunk lastc cs else Inr (Some t)
      | Inr None \<Rightarrow> starLoop chunk lastc cs)"

lemma skipStars_length: "skipStars p st = (st', p') \<Longrightarrow> length p' \<le> length p"
  by (induction p arbitrary: st) (auto split: if_splits dest: le_SucI)

lemma skipStars_hd: "skipStars p st = (st', p') \<Longrightarrow> p' \<noteq> [] \<Longrightarrow> hd p' \<noteq> CHR ''*''"
  by (induction p arbitrary: st) (auto split: if_splits)

lemma scan_length: "scan p ir = (a, b) \<Longrightarrow> length b \<le> length p"
  by (induction p ir arbitrary: a b rule: scan.induct)
     (auto split: if_splits prod.splits dest: le_SucI)

lemma scan_shorter:
  "scan p ir = (a, b) \<Longrightarrow> p \<noteq> [] \<Longrightarrow> hd p \<noteq> CHR ''*'' \<Longrightarrow> length b < length p"
  by (cases "(p, ir)" rule: scan.cases)
     (auto split: if_splits prod.splits dest!: scan_length)

lemma scanChunk_shorter:
  assumes "scanChunk pattern = (star, chunk, rest)" "pattern \<noteq> []"
  shows "length rest < length pattern"
proof -
  obtain st p where sk: "skipStars pattern False = (st, p)" by (cases "skipStars pattern False")
  with assms have sc: "scan p False = (chunk, rest)"
    by (auto simp: scanChunk_def split: prod.splits)
  show ?thesis
  proof (cases "p = []")
    case True
    with sc assms show ?thesis by simp
  next
    case False
    from scan_shorter[OF sc False skipStars_hd[OF sk False]] skipStars_length[OF sk]
    show ?thesis by simp
  qed
qed

text \<open>The final loop of \<^verbatim>\<open>Match\<close>: before it returns false without an error, the rest of
  the pattern is checked for syntax.\<close>

function validate :: "string \<Rightarrow> match_error + bool" where
  "validate pattern =
     (if pattern = [] then Inr False
      else case scanChunk pattern of (star, chunk, rest) \<Rightarrow>
        (case matchChunk chunk [] of
           Inl e \<Rightarrow> Inl e
         | Inr t \<Rightarrow> validate rest))"
  by pat_completeness auto
termination
  by (relation "measure length") (auto dest: scanChunk_shorter[OF sym])

text \<open>\<^verbatim>\<open>path.Match\<close>.\<close>

function path_Match :: "string \<Rightarrow> string \<Rightarrow> match_error + bool" where
  "path_Match pattern name =
     (if pattern = [] then Inr (name = [])
      else case scanChunk pattern of (star, chunk, rest) \<Rightarrow>
        if star \<and> chunk = [] then Inr (CHR ''/'' \<notin> set name)
        else (case matchChunk chunk name of
           Inl e \<Rightarrow> Inl e
         | Inr (Some t) \<Rightarrow>
             if t = [] \<or> rest \<noteq> [] then path_Match rest t
             else if star then
               (case starLoop chunk (rest = []) name of
                  Inl e \<Rightarrow> Inl e
                | Inr (Some t') \<Rightarrow> path_Match rest t'
                | Inr None \<Rightarrow> validate rest)
             else validate rest
         | Inr None \<Rightarrow>
             if star then
               (case starLoop chunk (rest = []) name of
                  Inl e \<Rightarrow> Inl e
                | Inr (Some t') \<Rightarrow> path_Match rest t'
                | Inr None \<Rightarrow> validate rest)
             else validate rest))"
  by pat_completeness auto
termination
  by (relation "measure (\<lambda>(pattern, name). length pattern)") (auto dest: scanChunk_shorter[OF sym])

declare validate.simps [simp del] path_Match.simps [simp del]

section \<open>Events and flags\<close>

text \<open>\<^verbatim>\<open>type Flag int\<close> with \<^verbatim>\<open>FlagOnce = 1 << iota\<close>, \<^verbatim>\<open>FlagVoid\<close>, \<^verbatim>\<open>FlagSkip\<close>. The only
  operations on flags are bitwise OR and comparison, which agree on Go's \<^verbatim>\<open>int\<close> and on
  the mathematical integers.\<close>

type_synonym Flag = int

definition FlagOnce :: Flag where "FlagOnce = push_bit 0 1"
definition FlagVoid :: Flag where "FlagVoid = push_bit 1 1"
definition FlagSkip :: Flag where "FlagSkip = push_bit 2 1"

text \<open>The two implementations of the \<^verbatim>\<open>Event\<close> interface: \<^verbatim>\<open>*BasicEvent\<close> and
  \<^verbatim>\<open>*EventOf[T]\<close>. The constructor is the dynamic type of the interface value; the type
  argument \<open>T\<close> of \<^verbatim>\<open>EventOf[T]\<close> is kept by name. The subject (Go's \<^verbatim>\<open>any\<close>) is a value of
  the type parameter \<open>'v\<close>.\<close>

type_synonym go_type = string

datatype 'v Event =
    BasicEvent (Topic: string) (Flag: Flag) (Subject: 'v)
  | EventOf (TypeArg: go_type) (Topic: string) (Flag: Flag) (Subject: 'v)

definition NewEvent :: "string \<Rightarrow> 'v \<Rightarrow> 'v Event" where
  "NewEvent topic subject = BasicEvent topic 0 subject"

definition NewEventOf :: "go_type \<Rightarrow> string \<Rightarrow> 'v \<Rightarrow> 'v Event" where
  "NewEventOf T topic subject = EventOf T topic 0 subject"

fun SetFlag :: "Flag \<Rightarrow> 'v Event \<Rightarrow> 'v Event" where
  "SetFlag flag (BasicEvent t f s) = BasicEvent t flag s"
| "SetFlag flag (EventOf T t f s) = EventOf T t flag s"

text \<open>\<^verbatim>\<open>Clone\<close> builds a new object of the same dynamic type from the three fields.\<close>

fun Clone :: "'v Event \<Rightarrow> 'v Event" where
  "Clone (BasicEvent t f s) = BasicEvent t f s"
| "Clone (EventOf T t f s) = EventOf T t f s"

text \<open>A middleware is a \<^verbatim>\<open>func(Event)\<close> that changes the event it is handed in place; it
  is represented by its effect on that event object (the object's own fields: data that a
  subject may point to is not part of the object).\<close>

type_synonym 'v middleware = "'v Event \<Rightarrow> 'v Event"

definition Once :: "'v middleware" where
  "Once e = SetFlag (Flag e OR FlagOnce) e"

definition Void :: "'v middleware" where
  "Void e = SetFlag (Flag e OR FlagVoid) e"

definition Skip :: "'v middleware" where
  "Skip e = SetFlag (Flag e OR FlagSkip) e"

section \<open>The emitter and its registry\<close>

text \<open>A listener is identified in the registry by the address that
  \<^verbatim>\<open>fmt.Sprintf("%p", listener)\<close> prints; a listener is represented by that address. A
  channel is referred to by its address in the store of channels, an event object by its
  address in the store of events.\<close>

type_synonym Listener = nat

record 'v listenerManager =
  lm_ch :: nat
  lm_middlewares :: "'v middleware list"
  lm_listener :: Listener

text \<open>The two \<^verbatim>\<open>sync.Map\<close>s are association lists with distinct keys; the order of a
  list is the order in which \<^verbatim>\<open>Range\<close> visits the entries.\<close>

record 'v Emitter =
  Cap :: nat
  listMans :: "(string \<times> (Listener \<times> 'v listenerManager) list) list"
  middlewares :: "(string \<times> 'v middleware list) list"

definition New :: "nat \<Rightarrow> 'v Emitter" where
  "New capacity = \<lparr>Cap = capacity, listMans = [], middlewares = []\<rparr>"

definition Topics :: "'v Emitter \<Rightarrow> string list" where
  "Topics e = map fst (listMans e)"

text \<open>\<^verbatim>\<open>matched\<close>: the callback of \<^verbatim>\<open>Range\<close> returns \<^verbatim>\<open>false\<close>, which stops the
  iteration, as soon as \<^verbatim>\<open>path.Match(topic, curTopic)\<close> reports an error; an error of
  \<^verbatim>\<open>path.Match(curTopic, topic)\<close> is dropped. The result is the accumulator and the last
  error assigned.\<close>

fun matched_range :: "matcher \<Rightarrow> string \<Rightarrow> string list \<Rightarrow> string list \<Rightarrow>
    string list \<times> match_error option" where
  "matched_range pm topic [] acc = (acc, None)"
| "matched_range pm topic (curTopic # rest) acc =
     (case pm topic curTopic of
        Inl err \<Rightarrow> (acc, Some err)
      | Inr True \<Rightarrow> matched_range pm topic rest (acc @ [curTopic])
      | Inr False \<Rightarrow>
          (case pm curTopic topic of
             Inr True \<Rightarrow> matched_range pm topic rest (acc @ [curTopic])
           | _ \<Rightarrow> matched_range pm topic rest acc))"

definition matched :: "matcher \<Rightarrow> 'v Emitter \<Rightarrow> string \<Rightarrow> string list \<times> match_error option" where
  "matched pm e topic = matched_range pm topic (map fst (listMans e)) []"


section \<open>Channels\<close>

text \<open>A mailbox is a Go channel of events together with the state of the one goroutine
  that receives from it, the worker of the subscription: \<open>ch_buf\<close> is the buffer (of
  event addresses) and \<open>ch_cap\<close> its capacity; \<open>recv_parked\<close> says that the worker is
  blocked in its receive; \<open>received\<close> lists what the worker has taken so far. A send
  proceeds when the worker is parked (the element is handed to it directly, which is the
  only way through a channel of capacity 0) or when the buffer has room; on a closed
  channel it proceeds and panics.\<close>

record chan =
  ch_buf :: "nat list"
  ch_cap :: nat
  ch_closed :: bool
  recv_parked :: bool
  received :: "nat list"

datatype fault = SendOnClosedChannel | CloseOfClosedChannel | CloseOfNilChannel | ListenerPanic

definition make_chan :: "nat \<Rightarrow> chan" where
  "make_chan capacity =
     \<lparr>ch_buf = [], ch_cap = capacity, ch_closed = False, recv_parked = False, received = []\<rparr>"

definition send_ready :: "chan \<Rightarrow> bool" where
  "send_ready c = (ch_closed c \<or> recv_parked c \<or> length (ch_buf c) < ch_cap c)"

definition chan_send :: "chan \<Rightarrow> nat \<Rightarrow> fault + chan" where
  "chan_send c x =
     (if ch_closed c then Inl SendOnClosedChannel
      else if recv_parked c then Inr (c\<lparr>recv_parked := False, received := received c @ [x]\<rparr>)
      else Inr (c\<lparr>ch_buf := ch_buf c @ [x]\<rparr>))"

definition chan_close :: "chan \<Rightarrow> fault + chan" where
  "chan_close c =
     (if ch_closed c then Inl CloseOfClosedChannel
      else Inr (c\<lparr>ch_closed := True, recv_parked := False\<rparr>))"

text \<open>The \<^verbatim>\<open>select\<close> of \<^verbatim>\<open>send\<close>. \<open>done\<close> says whether the completion channel of the emit
  call is ready to be received from (it is once closed). When both communications can
  proceed Go picks one at random: \<open>pick\<close> is that choice (\<open>True\<close> for \<^verbatim>\<open><-done\<close>). With no
  communication ready the select takes \<^verbatim>\<open>default\<close> when it has one (\<^verbatim>\<open>wait\<close> is false) and
  blocks otherwise: \<open>None\<close>.\<close>

datatype select_case = CaseDone | CaseSend | CaseDefault

definition select_send :: "bool \<Rightarrow> bool \<Rightarrow> chan \<Rightarrow> bool \<Rightarrow> select_case option" where
  "select_send pick done c wait =
     (if done \<and> send_ready c then Some (if pick then CaseDone else CaseSend)
      else if done then Some CaseDone
      else if send_ready c then Some CaseSend
      else if wait then None
      else Some CaseDefault)"

text \<open>The body of \<^verbatim>\<open>send\<close> up to its deferred function: the named results
  \<open>(sent, canceled)\<close> and the channel afterwards, or the panic of the send.\<close>

definition send_body :: "bool \<Rightarrow> bool \<Rightarrow> chan \<Rightarrow> nat \<Rightarrow> bool \<Rightarrow> (fault + (bool \<times> bool \<times> chan)) option" where
  "send_body pick done c x wait =
     (case select_send pick done c wait of
        None \<Rightarrow> None
      | Some CaseDone \<Rightarrow> Some (Inr (False, True, c))
      | Some CaseSend \<Rightarrow>
          (case chan_send c x of
             Inl p \<Rightarrow> Some (Inl p)
           | Inr c' \<Rightarrow> Some (Inr (True, False, c')))
      | Some CaseDefault \<Rightarrow> Some (Inr (False, False, c)))"

text \<open>\<^verbatim>\<open>send\<close>: the deferred function recovers a panic and sets both results to false.\<close>

definition send :: "bool \<Rightarrow> bool \<Rightarrow> chan \<Rightarrow> nat \<Rightarrow> bool \<Rightarrow> (bool \<times> bool \<times> chan) option" where
  "send pick done c x wait =
     (case send_body pick done c x wait of
        None \<Rightarrow> None
      | Some (Inl p) \<Rightarrow> Some (False, False, c)
      | Some (Inr r) \<Rightarrow> Some r)"

section \<open>The store\<close>

text \<open>Event objects and channels live in a store and are referred to by address (an
  index); allocation appends.\<close>

record 'v heap =
  events :: "'v Event list"
  chans :: "chan list"

definition close_ch :: "nat \<Rightarrow> 'v heap \<Rightarrow> fault + 'v heap" where
  "close_ch a h =
     (if a < length (chans h) then
        (case chan_close (chans h ! a) of
           Inl p \<Rightarrow> Inl p
         | Inr c \<Rightarrow> Inr (h\<lparr>chans := (chans h)[a := c]\<rparr>))
      else Inl CloseOfNilChannel)"

text \<open>\<^verbatim>\<open>pushEvent\<close>. The result \<open>err\<close> is never assigned and stays \<^verbatim>\<open>nil\<close>.\<close>

definition pushEvent :: "bool \<Rightarrow> bool \<Rightarrow> 'v heap \<Rightarrow> nat \<Rightarrow> nat \<Rightarrow>
    ((bool \<times> bool \<times> fault option) \<times> 'v heap) option" where
  "pushEvent pick done h lstnr event =
     (let isOnce = ((Flag (events h ! event) OR FlagOnce) = Flag (events h ! event));
          isSkip = ((Flag (events h ! event) OR FlagSkip) = Flag (events h ! event))
      in case send pick done (chans h ! lstnr) event (\<not> isSkip) of
           None \<Rightarrow> None
         | Some (sent, canceled, c') \<Rightarrow>
             let success = sent;
                 remove = (if \<not> sent \<and> \<not> canceled then False
                           else if \<not> canceled then isOnce
                           else False)
             in Some ((success, remove, None), h\<lparr>chans := (chans h)[lstnr := c']\<rparr>))"

section \<open>Subscribing and unsubscribing\<close>

text \<open>\<^verbatim>\<open>newListenerManager\<close> makes the channel and starts the worker (which is the
  receiver side of the channel record).\<close>

definition newListenerManager :: "nat \<Rightarrow> Listener \<Rightarrow> 'v middleware list \<Rightarrow> 'v heap \<Rightarrow>
    'v listenerManager \<times> 'v heap" where
  "newListenerManager capacity listener mws h =
     (\<lparr>lm_ch = length (chans h), lm_middlewares = mws, lm_listener = listener\<rparr>,
      h\<lparr>chans := chans h @ [make_chan capacity]\<rparr>)"

text \<open>\<^verbatim>\<open>Store\<close>, \<^verbatim>\<open>Load\<close> and \<^verbatim>\<open>Delete\<close> of \<^verbatim>\<open>sync.Map\<close>: a stored key keeps its place when
  it exists and goes to the end otherwise.\<close>

abbreviation Store :: "'k \<Rightarrow> 'a \<Rightarrow> ('k \<times> 'a) list \<Rightarrow> ('k \<times> 'a) list" where
  "Store \<equiv> AList.update"

abbreviation Delete :: "'k \<Rightarrow> ('k \<times> 'a) list \<Rightarrow> ('k \<times> 'a) list" where
  "Delete \<equiv> AList.delete"

abbreviation Load :: "('k \<times> 'a) list \<Rightarrow> 'k \<Rightarrow> 'a option" where
  "Load \<equiv> map_of"

definition Use :: "'v Emitter \<Rightarrow> string \<Rightarrow> 'v middleware list \<Rightarrow> 'v Emitter" where
  "Use e pattern mws =
     (if length mws = 0 then e\<lparr>middlewares := Delete pattern (middlewares e)\<rparr>
      else e\<lparr>middlewares := Store pattern mws (middlewares e)\<rparr>)"

text \<open>\<^verbatim>\<open>On\<close>: \<^verbatim>\<open>LoadOrStore\<close> of the topic with a fresh inner map, then \<^verbatim>\<open>Store\<close> of the
  manager under the listener's address in the inner map.\<close>

definition On :: "'v Emitter \<Rightarrow> 'v heap \<Rightarrow> string \<Rightarrow> Listener \<Rightarrow> 'v middleware list \<Rightarrow>
    'v Emitter \<times> 'v heap" where
  "On e h topic listener mws =
     (case newListenerManager (Cap e) listener mws h of (l, h') \<Rightarrow>
        let rawMan = (case Load (listMans e) topic of Some sm \<Rightarrow> sm | None \<Rightarrow> [])
        in (e\<lparr>listMans := Store topic (Store listener l rawMan) (listMans e)\<rparr>, h'))"

text \<open>The method \<^verbatim>\<open>Once\<close> of the emitter (the middleware of the same name is \<open>Once\<close>).\<close>

definition Emitter_Once :: "'v Emitter \<Rightarrow> 'v heap \<Rightarrow> string \<Rightarrow> Listener \<Rightarrow> 'v middleware list \<Rightarrow>
    'v Emitter \<times> 'v heap" where
  "Emitter_Once e h topic listener mws = On e h topic listener (mws @ [Once])"

text \<open>\<^verbatim>\<open>drop\<close>, \<^verbatim>\<open>dropMany\<close>, \<^verbatim>\<open>dropAll\<close> on an inner map. Closing a closed channel panics,
  and nothing recovers it.\<close>

definition drop_listener :: "(Listener \<times> 'v listenerManager) list \<Rightarrow> Listener \<Rightarrow> 'v heap \<Rightarrow>
    fault + ((Listener \<times> 'v listenerManager) list \<times> 'v heap)" where
  "drop_listener smListeners listener h =
     (case Load smListeners listener of
        None \<Rightarrow> Inr (smListeners, h)
      | Some listMan \<Rightarrow>
          (case close_ch (lm_ch listMan) h of
             Inl p \<Rightarrow> Inl p
           | Inr h' \<Rightarrow> Inr (Delete listener smListeners, h')))"

fun dropMany :: "(Listener \<times> 'v listenerManager) list \<Rightarrow> Listener list \<Rightarrow> 'v heap \<Rightarrow>
    fault + ((Listener \<times> 'v listenerManager) list \<times> 'v heap)" where
  "dropMany smListeners [] h = Inr (smListeners, h)"
| "dropMany smListeners (l # listeners) h =
     (case drop_listener smListeners l h of
        Inl p \<Rightarrow> Inl p
      | Inr (sm', h') \<Rightarrow> dropMany sm' listeners h')"

fun dropAll_range :: "(Listener \<times> 'v listenerManager) list \<Rightarrow> (Listener \<times> 'v listenerManager) list \<Rightarrow>
    'v heap \<Rightarrow> fault + ((Listener \<times> 'v listenerManager) list \<times> 'v heap)" where
  "dropAll_range [] smListeners h = Inr (smListeners, h)"
| "dropAll_range ((key, listMan) # rest) smListeners h =
     (case close_ch (lm_ch listMan) h of
        Inl p \<Rightarrow> Inl p
      | Inr h' \<Rightarrow> dropAll_range rest (Delete key smListeners) h')"

definition dropAll :: "(Listener \<times> 'v listenerManager) list \<Rightarrow> 'v heap \<Rightarrow>
    fault + ((Listener \<times> 'v listenerManager) list \<times> 'v heap)" where
  "dropAll smListeners h = dropAll_range smListeners smListeners h"

text \<open>\<^verbatim>\<open>Off\<close>. \<open>Off_entry\<close> is the callback of the \<^verbatim>\<open>Range\<close> over the registry at the
  entry whose key is the matched topic: the inner map \<^verbatim>\<open>smRaw\<close> is a pointer, so what
  \<^verbatim>\<open>dropMany\<close> leaves of it is what the registry holds under that key afterwards.\<close>

definition Off_entry :: "Listener list \<Rightarrow> string \<Rightarrow> (Listener \<times> 'v listenerManager) list \<Rightarrow>
    'v Emitter \<times> 'v heap \<Rightarrow> fault + ('v Emitter \<times> 'v heap)" where
  "Off_entry listeners topicRaw smRaw s =
     (case s of (e, h) \<Rightarrow>
        if length listeners = 0 then
          (case dropAll smRaw h of
             Inl p \<Rightarrow> Inl p
           | Inr (sm', h') \<Rightarrow> Inr (e\<lparr>listMans := Delete topicRaw (listMans e)\<rparr>, h'))
        else
          (case dropMany smRaw listeners h of
             Inl p \<Rightarrow> Inl p
           | Inr (sm', h') \<Rightarrow>
               let shouldRemove = (sm' = [])
               in if shouldRemove then Inr (e\<lparr>listMans := Delete topicRaw (listMans e)\<rparr>, h')
                  else Inr (e\<lparr>listMans := Store topicRaw sm' (listMans e)\<rparr>, h')))"

fun Off_range :: "Listener list \<Rightarrow> string \<Rightarrow> (string \<times> (Listener \<times> 'v listenerManager) list) list \<Rightarrow>
    'v Emitter \<times> 'v heap \<Rightarrow> fault + ('v Emitter \<times> 'v heap)" where
  "Off_range listeners t [] s = Inr s"
| "Off_range listeners t ((topicRaw, smRaw) # rest) s =
     (if topicRaw \<noteq> t then Off_range listeners t rest s
      else case Off_entry listeners topicRaw smRaw s of
             Inl p \<Rightarrow> Inl p
           | Inr s' \<Rightarrow> Off_range listeners t rest s')"

fun Off_topics :: "Listener list \<Rightarrow> string list \<Rightarrow> 'v Emitter \<times> 'v heap \<Rightarrow>
    fault + ('v Emitter \<times> 'v heap)" where
  "Off_topics listeners [] s = Inr s"
| "Off_topics listeners (t # match) s =
     (case Off_range listeners t (listMans (fst s)) s of
        Inl p \<Rightarrow> Inl p
      | Inr s' \<Rightarrow> Off_topics listeners match s')"

definition Off :: "matcher \<Rightarrow> 'v Emitter \<Rightarrow> 'v heap \<Rightarrow> string \<Rightarrow> Listener list \<Rightarrow>
    fault + ('v Emitter \<times> 'v heap)" where
  "Off pm e h topic listeners = Off_topics listeners (fst (matched pm e topic)) (e, h)"

definition Listeners :: "matcher \<Rightarrow> 'v Emitter \<Rightarrow> string \<Rightarrow> Listener list" where
  "Listeners pm e topic =
     concat (map (\<lambda>t.
       concat (map (\<lambda>(topicRaw, smRaw).
         if topicRaw \<noteq> t then [] else map (\<lambda>(k, lRaw). lm_listener lRaw) smRaw) (listMans e)))
       (fst (matched pm e topic)))"

section \<open>Emitting\<close>

definition getMiddlewares :: "matcher \<Rightarrow> 'v Emitter \<Rightarrow> string \<Rightarrow> 'v middleware list" where
  "getMiddlewares pm e topic =
     foldl (\<lambda>acc (pattern, mws).
        if pm pattern topic = Inr True then acc @ mws
        else if pm topic pattern = Inr True then acc @ mws
        else acc) [] (middlewares e)"

text \<open>\<^verbatim>\<open>applyMiddlewares(e, fns)\<close> calls each function on the event object at address \<open>a\<close>.\<close>

definition applyMiddlewares :: "'v heap \<Rightarrow> nat \<Rightarrow> 'v middleware list \<Rightarrow> 'v heap" where
  "applyMiddlewares h a fns =
     foldl (\<lambda>h fn. h\<lparr>events := (events h)[a := fn (events h ! a)]\<rparr>) h fns"

text \<open>\<^verbatim>\<open>Emit\<close> up to the start of its goroutines. \<open>Emit_listener\<close> is the inner callback
  (one subscription): clone, listener middlewares, the Void test, and the launch of the
  delivery goroutine, recorded as the pair of the manager and the address of the clone.
  \<open>Emit_entry\<close> is the outer callback, \<open>Emit_topic\<close> the body of the loop over the
  matched topics.\<close>

type_synonym 'v attempt = "'v listenerManager \<times> nat"

definition Emit_listener :: "nat \<Rightarrow> 'v heap \<times> 'v attempt list \<Rightarrow> Listener \<times> 'v listenerManager \<Rightarrow>
    'v heap \<times> 'v attempt list" where
  "Emit_listener event s entry =
     (case s of (h, launched) \<Rightarrow>
        let listMan = snd entry;
            evn = length (events h);
            h1 = h\<lparr>events := events h @ [Clone (events h ! event)]\<rparr>;
            h2 = applyMiddlewares h1 evn (lm_middlewares listMan)
        in if (Flag (events h2 ! evn) OR FlagVoid) = Flag (events h2 ! evn) then (h2, launched)
           else (h2, launched @ [(listMan, evn)]))"

definition Emit_entry :: "string \<Rightarrow> nat \<Rightarrow> 'v heap \<times> 'v attempt list \<Rightarrow>
    string \<times> (Listener \<times> 'v listenerManager) list \<Rightarrow> 'v heap \<times> 'v attempt list" where
  "Emit_entry t event s entry =
     (if fst entry \<noteq> t then s else foldl (Emit_listener event) s (snd entry))"

definition Emit_topic :: "matcher \<Rightarrow> 'v Emitter \<Rightarrow> nat \<Rightarrow> 'v heap \<times> 'v attempt list \<Rightarrow> string \<Rightarrow>
    'v heap \<times> 'v attempt list" where
  "Emit_topic pm e event s t =
     (case s of (h, launched) \<Rightarrow>
        foldl (Emit_entry t event)
          (applyMiddlewares h event (getMiddlewares pm e t), launched) (listMans e))"

definition Emit :: "matcher \<Rightarrow> 'v Emitter \<Rightarrow> 'v heap \<Rightarrow> nat \<Rightarrow> 'v heap \<times> 'v attempt list" where
  "Emit pm e h event =
     foldl (Emit_topic pm e event) (h, []) (fst (matched pm e (Topic (events h ! event))))"

text \<open>The goroutine that \<^verbatim>\<open>Emit\<close> starts for one subscription: \<^verbatim>\<open>pushEvent\<close>, then
  \<^verbatim>\<open>wg.Done()\<close>, then the deferred \<^verbatim>\<open>e.Off(event.Topic(), lm.listener)\<close> when \<^verbatim>\<open>remove\<close> is
  set. \<open>None\<close>: the goroutine is blocked in its send. A panic of \<^verbatim>\<open>Off\<close> is not recovered.\<close>

definition deliver :: "matcher \<Rightarrow> bool \<Rightarrow> bool \<Rightarrow> 'v Emitter \<times> 'v heap \<Rightarrow> 'v attempt \<Rightarrow>
    (fault + ('v Emitter \<times> 'v heap)) option" where
  "deliver pm pick done s att =
     (case s of (e, h) \<Rightarrow> case att of (lm, event) \<Rightarrow>
        (case pushEvent pick done h (lm_ch lm) event of
           None \<Rightarrow> None
         | Some ((success, remove, err), h') \<Rightarrow>
             if remove then Some (Off pm e h' (Topic (events h' ! event)) [lm_listener lm])
             else Some (Inr (e, h'))))"

section \<open>Listeners and the worker\<close>

text \<open>A listener's \<^verbatim>\<open>Handle\<close> (\<^verbatim>\<open>Observe\<close> in the other version of the file) runs user code:
  it changes the listener's own state \<open>'s\<close> or panics.\<close>

type_synonym ('v, 's) handler = "'v Event \<Rightarrow> 's \<Rightarrow> fault + 's"

definition ListenerFunc :: "('v, 's) handler \<Rightarrow> ('v, 's) handler" where
  "ListenerFunc fn e st = fn e st"

text \<open>\<^verbatim>\<open>ListenerFuncOf[T]\<close>: the type assertion \<^verbatim>\<open>e.(*EventOf[T])\<close> holds exactly for an
  \<open>EventOf\<close> object whose type argument is \<open>T\<close>.\<close>

definition ListenerFuncOf :: "go_type \<Rightarrow> ('v, 's) handler \<Rightarrow> ('v, 's) handler" where
  "ListenerFuncOf T fn e st =
     (case e of
        EventOf T' t f s \<Rightarrow> if T' = T then fn e st else Inr st
      | BasicEvent t f s \<Rightarrow> Inr st)"

text \<open>\<^verbatim>\<open>observe\<close>: the worker's loop over the events that arrive on its channel until it
  is closed. There is no \<^verbatim>\<open>recover\<close>: a panic of the listener leaves the loop.\<close>

fun observe :: "('v, 's) handler \<Rightarrow> 'v Event list \<Rightarrow> 's \<Rightarrow> fault + 's" where
  "observe handle [] st = Inr st"
| "observe handle (e # es) st =
     (case handle e st of
        Inl p \<Rightarrow> Inl p
      | Inr st' \<Rightarrow> observe handle es st')"


section \<open>Wildcard topic resolution\<close>

lemma matched_range_char:
  "matched_range pm topic ks acc =
     (acc @ filter (\<lambda>K. pm topic K = Inr True \<or> pm K topic = Inr True)
              (takeWhile (\<lambda>K. \<not> isl (pm topic K)) ks),
      if list_all (\<lambda>K. \<not> isl (pm topic K)) ks then None else Some ErrBadPattern)"
proof (induction ks arbitrary: acc)
  case Nil
  show ?case by simp
next
  case (Cons k ks)
  show ?case
  proof (cases "pm topic k")
    case (Inl err)
    then show ?thesis by (cases err) simp
  next
    case (Inr b)
    show ?thesis
    proof (cases b)
      case True
      with Inr Cons show ?thesis by simp
    next
      case False
      with Inr Cons show ?thesis
        by (cases "pm k topic") (auto split: bool.splits)
    qed
  qed
qed

lemma fst_matched:
  "fst (matched pm e topic) =
     filter (\<lambda>K. pm topic K = Inr True \<or> pm K topic = Inr True)
       (takeWhile (\<lambda>K. \<not> isl (pm topic K)) (map fst (listMans e)))"
  by (simp add: matched_def matched_range_char)

lemma path_Match_star_bracket: "path_Match ''*'' ''['' = Inr True"
  by code_simp

lemma path_Match_bracket_star: "path_Match ''['' ''*'' = Inl ErrBadPattern"
  by code_simp

text \<open>
  C1 (as amended). Resolution of a query \<open>topic\<close> visits the registered keys in the order
  of \<^verbatim>\<open>Range\<close> and stops at the first key \<open>K\<close> for which \<open>pm topic K\<close> reports a malformed
  pattern; among the keys visited before that point (all of them when there is no such
  key) it returns exactly those for which \<open>pm topic K\<close> or \<open>pm K topic\<close> succeeds. An error
  of \<open>pm K topic\<close> (a malformed registered key) only counts as no match for that pair. The
  error component is \<^verbatim>\<open>nil\<close> exactly when no \<open>pm topic K\<close> failed; \<^verbatim>\<open>Emit\<close>, \<^verbatim>\<open>Off\<close> and
  \<^verbatim>\<open>Listeners\<close> use the first component only.
\<close>

theorem matched_resolution:
  "fst (matched pm e topic) =
     filter (\<lambda>K. pm topic K = Inr True \<or> pm K topic = Inr True)
       (takeWhile (\<lambda>K. \<not> isl (pm topic K)) (Topics e)) \<and>
   snd (matched pm e topic) =
     (if list_all (\<lambda>K. \<not> isl (pm topic K)) (Topics e) then None else Some ErrBadPattern)"
  by (simp add: matched_def Topics_def matched_range_char)

text \<open>
  C1 as stated fails: with one subscription under \<^verbatim>\<open>"*"\<close>, the query \<^verbatim>\<open>"["\<close> is matched by
  the registered key (\<^verbatim>\<open>path.Match("*", "[")\<close> succeeds), but \<^verbatim>\<open>path.Match("[", "*")\<close>
  reports \<^verbatim>\<open>ErrBadPattern\<close> first, the iteration stops, and the key is not returned.
\<close>

theorem matched_malformed_query_omits_match:
  "path_Match ''*'' ''['' = Inr True \<and>
   Topics (fst (On (New 0) \<lparr>events = ([] :: unit Event list), chans = []\<rparr> ''*'' 1 [])) = [''*''] \<and>
   fst (matched path_Match
     (fst (On (New 0) \<lparr>events = ([] :: unit Event list), chans = []\<rparr> ''*'' 1 [])) ''['') = []"
  by (simp add: path_Match_star_bracket path_Match_bracket_star On_def New_def
      newListenerManager_def Topics_def matched_def)



section \<open>The typed listener adapter\<close>

text \<open>
  C10. \<^verbatim>\<open>ListenerFuncOf[T]\<close> handed an event whose dynamic type is not \<^verbatim>\<open>*EventOf[T]\<close> (a
  \<^verbatim>\<open>*BasicEvent\<close>, or an \<^verbatim>\<open>*EventOf\<close> of another type argument) does not call the wrapped
  function: whatever that function is, the call returns normally and the listener's state
  is unchanged.
\<close>

theorem ListenerFuncOf_discards_other_types:
  assumes "\<And>t f s. e \<noteq> EventOf T t f s"
  shows "ListenerFuncOf T fn e st = Inr st"
  using assms by (cases e) (auto simp: ListenerFuncOf_def)

text \<open>A wrapped function that would panic on every call, for the instances below.\<close>

definition always_panics :: "(int, nat) handler" where
  "always_panics e st = Inl ListenerPanic"

theorem ListenerFuncOf_discards_other_types_witness:
  "ListenerFuncOf ''string'' always_panics (NewEvent ''test'' 1) 7 = Inr 7 \<and>
   ListenerFuncOf ''string'' always_panics (NewEventOf ''int'' ''test'' 1) 7 = Inr 7"
proof
  show "ListenerFuncOf ''string'' always_panics (NewEvent ''test'' 1) 7 = Inr 7"
    by (rule ListenerFuncOf_discards_other_types) (simp add: NewEvent_def)
  show "ListenerFuncOf ''string'' always_panics (NewEventOf ''int'' ''test'' 1) 7 = Inr 7"
    by (rule ListenerFuncOf_discards_other_types) (simp add: NewEventOf_def)
qed


section \<open>The delivery worker\<close>

lemma observe_append:
  "observe handle (es @ es') st =
     (case observe handle es st of Inl p \<Rightarrow> Inl p | Inr st' \<Rightarrow> observe handle es' st')"
  by (induction es arbitrary: st) (auto split: sum.splits)

text \<open>
  C2 (as amended). The worker does not recover: when the listener panics on an event that
  follows events handled normally, the panic leaves \<^verbatim>\<open>observe\<close> (which ends the worker
  and, unrecovered in its goroutine, the process), whatever events are still to come. As
  long as the listener returns normally the worker goes on with the next event, in
  arrival order.
\<close>

theorem observe_panic_ends_worker:
  "(observe handle es st = Inr st' \<and> handle e st' = Inl p \<longrightarrow>
      observe handle (es @ e # rest) st = Inl p) \<and>
   (observe handle es st = Inr st' \<and> handle e st' = Inr st'' \<longrightarrow>
      observe handle (es @ e # rest) st = observe handle rest st'')"
  by (simp add: observe_append)

text \<open>A listener that records the subjects it sees and panics on subject 1.\<close>

definition panics_on_one :: "(nat, nat list) handler" where
  "panics_on_one e seen = (if Subject e = 1 then Inl ListenerPanic else Inr (seen @ [Subject e]))"

theorem observe_panic_ends_worker_witness:
  "observe (ListenerFunc panics_on_one) ([NewEvent ''t'' 0] @ NewEvent ''t'' 1 # [NewEvent ''t'' 2]) [] = Inl ListenerPanic \<and>
   observe (ListenerFunc panics_on_one) ([NewEvent ''t'' 0] @ NewEvent ''t'' 3 # [NewEvent ''t'' 2]) [] = Inr [0, 3, 2]"
  using observe_panic_ends_worker[of "ListenerFunc panics_on_one" "[NewEvent ''t'' 0]" "[]" "[0]"
      "NewEvent ''t'' 1" ListenerPanic "[NewEvent ''t'' 2]" "[]"]
    observe_panic_ends_worker[of "ListenerFunc panics_on_one" "[NewEvent ''t'' 0]" "[]" "[0]"
      "NewEvent ''t'' 3" ListenerPanic "[NewEvent ''t'' 2]" "[0, 3]"]
  by (simp add: ListenerFunc_def panics_on_one_def NewEvent_def)

text \<open>
  C2 as stated fails: the listener panics on the first of two events; the worker ends with
  that panic and never handles the second event.
\<close>

theorem observe_does_not_recover:
  "observe (ListenerFunc panics_on_one) [NewEvent ''t'' 1, NewEvent ''t'' 2] [] = Inl ListenerPanic"
  by (simp add: ListenerFunc_def panics_on_one_def NewEvent_def)


section \<open>Subscribing once\<close>

text \<open>
  C5 (evaluation of the code). \<^verbatim>\<open>Once(topic, listener, mws...)\<close> is \<^verbatim>\<open>On\<close> with \<open>Once\<close>
  appended: the middleware chain of the subscription is \<open>mws @ [Once]\<close>, so \<open>Once\<close> runs
  last. After \<^verbatim>\<open>e.Once("t", l, Void)\<close> the first middleware of the chain sets \<open>FlagVoid\<close>
  and the second \<open>FlagOnce\<close>. After \<^verbatim>\<open>e.Once("t", l, reset)\<close>, where \<^verbatim>\<open>reset\<close> sets the flag
  to 0, the chain leaves \<open>FlagOnce\<close> on an event, where the chain with \<open>Once\<close> first
  leaves 0.
\<close>

theorem Emitter_Once_runs_Once_last:
  "Emitter_Once e h topic l mws = On e h topic l (mws @ [Once]) \<and>
   map (\<lambda>(t, sm). (t, map (\<lambda>(k, lm). (k, map (\<lambda>fn. Flag (fn (NewEvent ''t'' ()))) (lm_middlewares lm))) sm))
     (listMans (fst (Emitter_Once (New 0) \<lparr>events = [], chans = []\<rparr> ''t'' 1 [Void]))) =
     [(''t'', [(1, [FlagVoid, FlagOnce])])] \<and>
   map (\<lambda>(t, sm). (t, map (\<lambda>(k, lm).
       (k, Flag (events (applyMiddlewares \<lparr>events = [NewEvent ''t'' ()], chans = []\<rparr> 0 (lm_middlewares lm)) ! 0))) sm))
     (listMans (fst (Emitter_Once (New 0) \<lparr>events = [], chans = []\<rparr> ''t'' 1 [SetFlag 0]))) =
     [(''t'', [(1, FlagOnce)])] \<and>
   Flag (events (applyMiddlewares \<lparr>events = [NewEvent ''t'' ()], chans = []\<rparr> 0 [Once, SetFlag 0]) ! 0) = 0"
  by (simp add: Emitter_Once_def On_def New_def newListenerManager_def NewEvent_def Void_def Once_def
      FlagVoid_def FlagOnce_def applyMiddlewares_def)


section \<open>Delivery attempts\<close>

lemma send_not_ready_nowait:
  "\<not> send_ready c \<Longrightarrow> send pick done c x False = Some (False, done, c)"
  by (simp add: send_def send_body_def select_send_def)

lemma send_nowait_returns: "send pick done c x False \<noteq> None"
  by (auto simp: send_def send_body_def select_send_def chan_send_def split: sum.splits)

lemma send_closed:
  "ch_closed c \<Longrightarrow> send pick done c x wait = Some (False, done \<and> pick, c)"
  by (simp add: send_def send_body_def select_send_def send_ready_def chan_send_def)

lemma send_blocked_iff:
  "send pick done c x wait = None \<longleftrightarrow> wait \<and> \<not> done \<and> \<not> send_ready c"
  by (auto simp: send_def send_body_def select_send_def chan_send_def split: sum.splits)

text \<open>
  C7. For an event with the Skip bit, \<^verbatim>\<open>pushEvent\<close> calls \<^verbatim>\<open>send\<close> with \<^verbatim>\<open>wait = false\<close>: in
  every state of the mailbox the attempt returns (it is never blocked), so its goroutine
  reaches \<^verbatim>\<open>wg.Done()\<close> and the completion channel of the emit call can be closed. When the
  mailbox is full (no parked worker, no room in the buffer, not closed) the attempt
  reports \<open>success = False\<close>, \<open>remove = False\<close> and no error, and leaves the store, hence
  the mailbox and what the worker has received, unchanged.
\<close>

theorem skip_send_never_blocks:
  assumes skip: "(Flag (events h ! event) OR FlagSkip) = Flag (events h ! event)"
  shows "pushEvent pick done h lstnr event \<noteq> None \<and>
         deliver pm pick done (e, h) (lm, event) \<noteq> None \<and>
         (\<not> send_ready (chans h ! lstnr) \<longrightarrow>
            pushEvent pick done h lstnr event = Some ((False, False, None), h)) \<and>
         (\<not> send_ready (chans h ! lm_ch lm) \<longrightarrow>
            deliver pm pick done (e, h) (lm, event) = Some (Inr (e, h)))"
proof -
  have full: "pushEvent pick done h a event = Some ((False, False, None), h)"
    if "\<not> send_ready (chans h ! a)" for a
    using skip that by (simp add: pushEvent_def send_not_ready_nowait)
  have ret: "pushEvent pick done h a event \<noteq> None" for a
    using skip send_nowait_returns[of pick "done" "chans h ! a" event]
    by (auto simp: pushEvent_def split: option.splits)
  have "deliver pm pick done (e, h) (lm, event) \<noteq> None"
    using ret[of "lm_ch lm"] by (auto simp: deliver_def split: option.splits)
  moreover have "deliver pm pick done (e, h) (lm, event) = Some (Inr (e, h))"
    if "\<not> send_ready (chans h ! lm_ch lm)"
    using full[OF that] by (simp add: deliver_def)
  ultimately show ?thesis using full ret by blast
qed

text \<open>A full mailbox of capacity 1, and a store with an event carrying the Skip bit.\<close>

definition full_chan :: chan where
  "full_chan = \<lparr>ch_buf = [0], ch_cap = 1, ch_closed = False, recv_parked = False, received = []\<rparr>"

definition skip_heap :: "unit heap" where
  "skip_heap = \<lparr>events = [NewEvent ''a'' (), Skip (NewEvent ''a'' ())], chans = [full_chan]\<rparr>"

theorem skip_send_never_blocks_witness:
  "pushEvent False False skip_heap 0 1 = Some ((False, False, None), skip_heap) \<and>
   deliver path_Match False False (New 1, skip_heap)
     (\<lparr>lm_ch = 0, lm_middlewares = [Skip], lm_listener = 5\<rparr>, 1) = Some (Inr (New 1, skip_heap))"
  using skip_send_never_blocks[of skip_heap 1 False False 0 path_Match "New 1"
      "\<lparr>lm_ch = 0, lm_middlewares = [Skip], lm_listener = 5\<rparr>"]
  by (simp add: skip_heap_def full_chan_def Skip_def NewEvent_def FlagSkip_def send_ready_def)

text \<open>
  C8. A delivery attempt on a closed mailbox: the send panics inside \<^verbatim>\<open>send\<close>, the deferred
  function recovers it, and the attempt ends with \<open>sent = False\<close>; \<^verbatim>\<open>pushEvent\<close> reports
  \<open>success = False\<close>, \<open>remove = False\<close>, no error, the store is unchanged and the goroutine
  ends without a fault. A sender blocked on a full mailbox (\<open>send \<dots> = None\<close>) that is then
  closed is woken in the same select, which now returns \<open>(False, False)\<close>.
\<close>

theorem send_on_closed_degrades:
  "(ch_closed (chans h ! lm_ch lm) \<longrightarrow>
      send pick done (chans h ! lm_ch lm) event wait = Some (False, done \<and> pick, chans h ! lm_ch lm) \<and>
      pushEvent pick done h (lm_ch lm) event = Some ((False, False, None), h) \<and>
      deliver pm pick done (e, h) (lm, event) = Some (Inr (e, h))) \<and>
   (send pick False c event True = None \<and> chan_close c = Inr c' \<longrightarrow>
      send pick False c' event True = Some (False, False, c'))"
proof -
  have a: "pushEvent pick done h (lm_ch lm) event = Some ((False, False, None), h)"
    if "ch_closed (chans h ! lm_ch lm)"
    using that by (auto simp: pushEvent_def send_closed Let_def)
  have b: "send pick False c' event True = Some (False, False, c')"
    if "chan_close c = Inr c'"
  proof -
    from that have "ch_closed c'" by (auto simp: chan_close_def split: if_splits)
    then show ?thesis by (simp add: send_closed)
  qed
  show ?thesis using a b by (auto simp: send_closed deliver_def)
qed

definition closed_heap :: "unit heap" where
  "closed_heap = \<lparr>events = [NewEvent ''a'' ()],
     chans = [\<lparr>ch_buf = [], ch_cap = 0, ch_closed = True, recv_parked = False, received = []\<rparr>]\<rparr>"

theorem send_on_closed_degrades_witness:
  "pushEvent False False closed_heap 0 0 = Some ((False, False, None), closed_heap) \<and>
   deliver path_Match False False (New 0, closed_heap)
     (\<lparr>lm_ch = 0, lm_middlewares = [], lm_listener = 5\<rparr>, 0) = Some (Inr (New 0, closed_heap)) \<and>
   send False False full_chan 0 True = None \<and>
   send False False (full_chan\<lparr>ch_closed := True, recv_parked := False\<rparr>) 0 True =
     Some (False, False, full_chan\<lparr>ch_closed := True, recv_parked := False\<rparr>)"
  using send_on_closed_degrades[of closed_heap "\<lparr>lm_ch = 0, lm_middlewares = [], lm_listener = 5\<rparr>"
      False False 0 True path_Match "New 0" full_chan "full_chan\<lparr>ch_closed := True, recv_parked := False\<rparr>"]
  by (simp add: closed_heap_def full_chan_def send_blocked_iff send_ready_def chan_close_def)

section \<open>Middlewares and fan-out in Emit\<close>

text \<open>Notions for stating what \<^verbatim>\<open>Emit\<close> does: the effect of a middleware chain on one
  event object, the Void test of \<^verbatim>\<open>Emit\<close>, the subscriptions that the \<^verbatim>\<open>Range\<close> visits for
  a topic key, the clones made for them from a shared event, and the attempts launched for
  them (\<open>n\<close> is the address of the first clone).\<close>

definition chain :: "'v middleware list \<Rightarrow> 'v Event \<Rightarrow> 'v Event" where
  "chain fns x = foldl (\<lambda>x fn. fn x) x fns"

definition isVoid :: "'v Event \<Rightarrow> bool" where
  "isVoid x = ((Flag x OR FlagVoid) = Flag x)"

definition subscriptions :: "'v Emitter \<Rightarrow> string \<Rightarrow> (Listener \<times> 'v listenerManager) list" where
  "subscriptions e t = concat (map snd (filter (\<lambda>entry. fst entry = t) (listMans e)))"

lemma applyMiddlewares_eq:
  "a < length (events h) \<Longrightarrow>
   applyMiddlewares h a fns = h\<lparr>events := (events h)[a := chain fns (events h ! a)]\<rparr>"
proof (induction fns arbitrary: h)
  case Nil
  then show ?case by (simp add: applyMiddlewares_def chain_def)
next
  case (Cons fn fns)
  have "applyMiddlewares h a (fn # fns) =
        applyMiddlewares (h\<lparr>events := (events h)[a := fn (events h ! a)]\<rparr>) a fns"
    by (simp add: applyMiddlewares_def)
  also have "\<dots> = h\<lparr>events := (events h)[a := chain (fn # fns) (events h ! a)]\<rparr>"
    using Cons.prems by (subst Cons.IH) (simp_all add: chain_def)
  finally show ?case .
qed

lemma Emit_listener_eq:
  "Emit_listener event (h, launched) (k, lm) =
     (h\<lparr>events := events h @ [chain (lm_middlewares lm) (Clone (events h ! event))]\<rparr>,
      if isVoid (chain (lm_middlewares lm) (Clone (events h ! event))) then launched
      else launched @ [(lm, length (events h))])"
  by (simp add: Emit_listener_def Let_def applyMiddlewares_eq isVoid_def)

definition clones :: "'v Event \<Rightarrow> (Listener \<times> 'v listenerManager) list \<Rightarrow> 'v Event list" where
  "clones shared sm = map (\<lambda>entry. chain (lm_middlewares (snd entry)) (Clone shared)) sm"

fun launches :: "'v Event \<Rightarrow> nat \<Rightarrow> (Listener \<times> 'v listenerManager) list \<Rightarrow> 'v attempt list" where
  "launches shared n [] = []"
| "launches shared n (entry # sm) =
     (if isVoid (chain (lm_middlewares (snd entry)) (Clone shared)) then launches shared (Suc n) sm
      else (snd entry, n) # launches shared (Suc n) sm)"

lemma foldl_Emit_listener:
  "event < length (events h) \<Longrightarrow>
   foldl (Emit_listener event) (h, launched) sm =
     (h\<lparr>events := events h @ clones (events h ! event) sm\<rparr>,
      launched @ launches (events h ! event) (length (events h)) sm)"
proof (induction sm arbitrary: h launched)
  case Nil
  then show ?case by (simp add: clones_def)
next
  case (Cons entry sm)
  obtain k lm where entry: "entry = (k, lm)" by (cases entry)
  let ?c = "chain (lm_middlewares lm) (Clone (events h ! event))"
  let ?h1 = "h\<lparr>events := events h @ [?c]\<rparr>"
  have ev: "event < length (events ?h1)" "events ?h1 ! event = events h ! event"
    using Cons.prems by (simp_all add: nth_append)
  show ?case
    unfolding entry foldl_Cons Emit_listener_eq
    by (subst Cons.IH[OF ev(1)]) (simp add: ev(2) clones_def nth_append Cons.prems)
qed

lemma launches_append:
  "launches shared n (sm @ sm') = launches shared n sm @ launches shared (n + length sm) sm'"
  by (induction sm arbitrary: n) auto

lemma foldl_Emit_entry:
  "event < length (events h) \<Longrightarrow>
   foldl (Emit_entry t event) (h, launched) lms =
     (h\<lparr>events := events h @ clones (events h ! event) (concat (map snd (filter (\<lambda>entry. fst entry = t) lms)))\<rparr>,
      launched @ launches (events h ! event) (length (events h))
        (concat (map snd (filter (\<lambda>entry. fst entry = t) lms))))"
proof (induction lms arbitrary: h launched)
  case Nil
  then show ?case by (simp add: clones_def)
next
  case (Cons entry lms)
  show ?case
  proof (cases "fst entry = t")
    case False
    then show ?thesis using Cons by (simp add: Emit_entry_def)
  next
    case True
    let ?h1 = "h\<lparr>events := events h @ clones (events h ! event) (snd entry)\<rparr>"
    have ev: "event < length (events ?h1)" "events ?h1 ! event = events h ! event"
      using Cons.prems by (simp_all add: nth_append)
    have step: "Emit_entry t event (h, launched) entry =
      (?h1, launched @ launches (events h ! event) (length (events h)) (snd entry))"
      using True Cons.prems by (simp add: Emit_entry_def foldl_Emit_listener)
    show ?thesis
      unfolding foldl_Cons step
      by (subst Cons.IH[OF ev(1)])
         (simp add: True clones_def launches_append nth_append Cons.prems)
  qed
qed

lemma Emit_topic_eq:
  assumes "event < length (events h)"
  shows "Emit_topic pm e event (h, launched) t =
     (h\<lparr>events := (events h)[event := chain (getMiddlewares pm e t) (events h ! event)] @
         clones (chain (getMiddlewares pm e t) (events h ! event)) (subscriptions e t)\<rparr>,
      launched @ launches (chain (getMiddlewares pm e t) (events h ! event)) (length (events h))
         (subscriptions e t))"
  using assms
  by (simp add: Emit_topic_def applyMiddlewares_eq foldl_Emit_entry subscriptions_def)


lemma launches_props:
  "(lm, a) \<in> set (launches shared n sm) \<Longrightarrow>
   n \<le> a \<and> a < n + length sm \<and> lm = snd (sm ! (a - n)) \<and> \<not> isVoid (clones shared sm ! (a - n))"
proof (induction sm arbitrary: n)
  case Nil
  then show ?case by simp
next
  case (Cons entry sm)
  show ?case
  proof (cases "(lm, a) \<in> set (launches shared (Suc n) sm)")
    case True
    from Cons.IH[OF True] have ih: "Suc n \<le> a" "a < Suc n + length sm"
      "lm = snd (sm ! (a - Suc n))" "\<not> isVoid (clones shared sm ! (a - Suc n))"
      by simp_all
    from ih(1) have d: "a - n = Suc (a - Suc n)" by arith
    from ih show ?thesis unfolding d by (simp add: clones_def)
  next
    case False
    with Cons.prems have "lm = snd entry" "a = n"
      "\<not> isVoid (chain (lm_middlewares (snd entry)) (Clone shared))"
      by (auto split: if_splits)
    then show ?thesis by (simp add: clones_def)
  qed
qed

text \<open>What one round of the loop over the matched topics establishes.\<close>

lemma Emit_topic_step:
  assumes ev: "event < length (events h)"
  shows "events (fst (Emit_topic pm e event (h, launched) t)) =
           (events h)[event := chain (getMiddlewares pm e t) (events h ! event)] @
           clones (chain (getMiddlewares pm e t) (events h ! event)) (subscriptions e t)"
    and "chans (fst (Emit_topic pm e event (h, launched) t)) = chans h"
    and "snd (Emit_topic pm e event (h, launched) t) =
           launched @ launches (chain (getMiddlewares pm e t) (events h ! event))
             (length (events h)) (subscriptions e t)"
  by (simp_all add: Emit_topic_eq[OF ev])

definition launched_ok :: "'v heap \<Rightarrow> nat \<Rightarrow> 'v attempt list \<Rightarrow> bool" where
  "launched_ok h n launched =
     list_all (\<lambda>att. n \<le> snd att \<and> snd att < length (events h) \<and> \<not> isVoid (events h ! snd att)) launched"

lemma foldl_Emit_topic_inv:
  assumes "event < length (events h)" "launched_ok h n launched" "event < n" "n \<le> length (events h)"
  shows "chans (fst (foldl (Emit_topic pm e event) (h, launched) ts)) = chans h \<and>
         length (events h) \<le> length (events (fst (foldl (Emit_topic pm e event) (h, launched) ts))) \<and>
         (\<forall>a < length (events h). a \<noteq> event \<longrightarrow>
            events (fst (foldl (Emit_topic pm e event) (h, launched) ts)) ! a = events h ! a) \<and>
         events (fst (foldl (Emit_topic pm e event) (h, launched) ts)) ! event =
            chain (concat (map (getMiddlewares pm e) ts)) (events h ! event) \<and>
         launched_ok (fst (foldl (Emit_topic pm e event) (h, launched) ts)) n
            (snd (foldl (Emit_topic pm e event) (h, launched) ts))"
  using assms
proof (induction ts arbitrary: h launched)
  case Nil
  then show ?case by (simp add: chain_def)
next
  case (Cons t ts)
  let ?s = "chain (getMiddlewares pm e t) (events h ! event)"
  let ?r = "Emit_topic pm e event (h, launched) t"
  note st = Emit_topic_step[OF Cons.prems(1), where pm=pm and e=e and t=t and launched=launched]
  have len: "length (events (fst ?r)) = length (events h) + length (subscriptions e t)"
    by (simp add: st(1) clones_def)
  have ev1: "event < length (events (fst ?r))" using Cons.prems(1) len by simp
  have old: "events (fst ?r) ! a = events h ! a" if "a < length (events h)" "a \<noteq> event" for a
    using that by (simp add: st(1) nth_append)
  have shared: "events (fst ?r) ! event = ?s"
    using Cons.prems(1) by (simp add: st(1) nth_append)
  have new: "events (fst ?r) ! (length (events h) + i) = clones ?s (subscriptions e t) ! i"
    if "i < length (subscriptions e t)" for i
    using that by (simp add: st(1) nth_append)
  have ok1: "launched_ok (fst ?r) n (snd ?r)"
    unfolding launched_ok_def st(3) list_all_append
  proof
    show "list_all (\<lambda>att. n \<le> snd att \<and> snd att < length (events (fst ?r)) \<and>
            \<not> isVoid (events (fst ?r) ! snd att)) launched"
      using Cons.prems(2,3) old len
      by (auto simp: launched_ok_def list_all_iff)
    show "list_all (\<lambda>att. n \<le> snd att \<and> snd att < length (events (fst ?r)) \<and>
            \<not> isVoid (events (fst ?r) ! snd att))
           (launches ?s (length (events h)) (subscriptions e t))"
      unfolding list_all_iff
    proof
      fix att assume "att \<in> set (launches ?s (length (events h)) (subscriptions e t))"
      then have "(fst att, snd att) \<in> set (launches ?s (length (events h)) (subscriptions e t))"
        by simp
      from launches_props[OF this]
      have p: "length (events h) \<le> snd att" "snd att < length (events h) + length (subscriptions e t)"
        "\<not> isVoid (clones ?s (subscriptions e t) ! (snd att - length (events h)))"
        by simp_all
      from p(1,2) new[of "snd att - length (events h)"]
      have "events (fst ?r) ! snd att = clones ?s (subscriptions e t) ! (snd att - length (events h))"
        by simp
      with p Cons.prems(4) len
      show "n \<le> snd att \<and> snd att < length (events (fst ?r)) \<and> \<not> isVoid (events (fst ?r) ! snd att)"
        by simp
    qed
  qed
  have n1: "n \<le> length (events (fst ?r))" using Cons.prems(4) len by simp
  have eq: "foldl (Emit_topic pm e event) (h, launched) (t # ts) =
            foldl (Emit_topic pm e event) (fst ?r, snd ?r) ts"
    by simp
  note IH = Cons.IH[OF ev1 ok1 Cons.prems(3) n1]
  show ?case
    unfolding eq
    using IH old shared len st(2) Cons.prems(1)
    by (auto simp: chain_def)
qed


lemma launches_index:
  "att \<in> set (launches shared n sm) \<Longrightarrow> \<exists>i<length sm. att = (snd (sm ! i), n + i)"
proof -
  assume a: "att \<in> set (launches shared n sm)"
  then have "(fst att, snd att) \<in> set (launches shared n sm)" by simp
  from launches_props[OF this]
  have "snd att - n < length sm" "att = (snd (sm ! (snd att - n)), n + (snd att - n))"
    by (auto simp: prod_eq_iff)
  then show ?thesis by blast
qed


lemma Clone_same: "Clone x = x"
  by (cases x) simp_all

lemma getMiddlewares_foldl:
  "foldl (\<lambda>acc (pattern, mws).
        if pm pattern topic = Inr True then acc @ mws
        else if pm topic pattern = Inr True then acc @ mws
        else acc) acc ms =
   acc @ concat (map snd (filter (\<lambda>entry. pm (fst entry) topic = Inr True \<or> pm topic (fst entry) = Inr True) ms))"
  by (induction ms arbitrary: acc) (auto simp: case_prod_beta)

lemma getMiddlewares_eq:
  "getMiddlewares pm e topic =
     concat (map snd (filter (\<lambda>entry. pm (fst entry) topic = Inr True \<or> pm topic (fst entry) = Inr True)
       (middlewares e)))"
  by (simp add: getMiddlewares_def getMiddlewares_foldl)













text \<open>
  C4. One round of the loop of \<^verbatim>\<open>Emit\<close> over the matched topics, for the topic key \<open>t\<close> and
  the emitted event at address \<open>event\<close>. The pattern-scoped middlewares of the round are
  those registered under the patterns that match \<open>t\<close> in either direction, in the order of
  the \<^verbatim>\<open>Range\<close> over the registered patterns, and no others; they are applied once to the
  shared event object. One new object is allocated per subscription under \<open>t\<close>; \<^verbatim>\<open>Clone\<close>
  copies the dynamic type, the topic, the flag and the subject, so the new object is the
  subscription's own middleware chain applied to the shared event as the pattern-scoped
  middlewares left it: their effect shows in the event of every subscription under \<open>t\<close>.
  No other object of the store changes, so the listener-scoped middlewares of a
  subscription show in its own clone only; every attempt launched in the round pairs a
  subscription with its own clone. Over the whole call the shared event receives the
  pattern-scoped middlewares of the matched topics, in order, and nothing else. A
  middleware acts on the fields of the event object it is handed; a subject is a value
  here, so data that a subject refers to through a pointer, which a clone shares with the
  emitted event, is outside this statement.
\<close>

theorem Emit_topic_middleware_scopes:
  assumes ev: "event < length (events h)"
  shows "getMiddlewares pm e t =
           concat (map snd (filter (\<lambda>entry. pm (fst entry) t = Inr True \<or> pm t (fst entry) = Inr True)
             (middlewares e))) \<and>
         Clone x = x \<and>
         events (fst (Emit_topic pm e event (h, launched) t)) ! event =
           chain (getMiddlewares pm e t) (events h ! event) \<and>
         length (events (fst (Emit_topic pm e event (h, launched) t))) =
           length (events h) + length (subscriptions e t) \<and>
         (\<forall>i<length (subscriptions e t).
            events (fst (Emit_topic pm e event (h, launched) t)) ! (length (events h) + i) =
              chain (lm_middlewares (snd (subscriptions e t ! i)))
                (chain (getMiddlewares pm e t) (events h ! event))) \<and>
         (\<forall>a<length (events h). a \<noteq> event \<longrightarrow>
            events (fst (Emit_topic pm e event (h, launched) t)) ! a = events h ! a) \<and>
         (\<forall>att \<in> set (snd (Emit_topic pm e event (h, launched) t)).
            att \<in> set launched \<or>
            (\<exists>i<length (subscriptions e t). att = (snd (subscriptions e t ! i), length (events h) + i))) \<and>
         events (fst (Emit pm e h event)) ! event =
           chain (concat (map (getMiddlewares pm e) (fst (matched pm e (Topic (events h ! event))))))
             (events h ! event) \<and>
         (\<forall>a<length (events h). a \<noteq> event \<longrightarrow> events (fst (Emit pm e h event)) ! a = events h ! a)"
proof -
  note st = Emit_topic_step[OF ev, where pm=pm and e=e and t=t and launched=launched]
  have ok0: "launched_ok h (length (events h)) []" by (simp add: launched_ok_def)
  note whole = foldl_Emit_topic_inv[OF ev ok0 ev le_refl, where pm=pm and e=e
      and ts="fst (matched pm e (Topic (events h ! event)))"]
  have g: "getMiddlewares pm e t =
           concat (map snd (filter (\<lambda>entry. pm (fst entry) t = Inr True \<or> pm t (fst entry) = Inr True)
             (middlewares e)))"
    by (rule getMiddlewares_eq)
  have c: "Clone x = x" by (rule Clone_same)
  have 1: "events (fst (Emit_topic pm e event (h, launched) t)) ! event =
           chain (getMiddlewares pm e t) (events h ! event)"
    using ev by (simp add: st(1) nth_append)
  have 2: "length (events (fst (Emit_topic pm e event (h, launched) t))) =
           length (events h) + length (subscriptions e t)"
    by (simp add: st(1) clones_def)
  have 3: "\<forall>i<length (subscriptions e t).
            events (fst (Emit_topic pm e event (h, launched) t)) ! (length (events h) + i) =
              chain (lm_middlewares (snd (subscriptions e t ! i)))
                (chain (getMiddlewares pm e t) (events h ! event))"
    by (simp add: st(1) nth_append clones_def Clone_same)
  have 4: "\<forall>a<length (events h). a \<noteq> event \<longrightarrow>
            events (fst (Emit_topic pm e event (h, launched) t)) ! a = events h ! a"
    by (simp add: st(1) nth_append)
  have 5: "\<forall>att \<in> set (snd (Emit_topic pm e event (h, launched) t)).
            att \<in> set launched \<or>
            (\<exists>i<length (subscriptions e t). att = (snd (subscriptions e t ! i), length (events h) + i))"
    unfolding st(3) using launches_index by fastforce
  from whole have 6: "events (fst (Emit pm e h event)) ! event =
           chain (concat (map (getMiddlewares pm e) (fst (matched pm e (Topic (events h ! event))))))
             (events h ! event)"
    and 7: "\<forall>a<length (events h). a \<noteq> event \<longrightarrow> events (fst (Emit pm e h event)) ! a = events h ! a"
    by (simp_all add: Emit_def)
  from g c 1 2 3 4 5 6 7 show ?thesis by blast
qed



text \<open>An example: capacity 1; listener 1 subscribed to \<^verbatim>\<open>"a"\<close> with \<open>Void\<close>, listener 2 with
  \<open>Once\<close>; \<open>Skip\<close> registered for the pattern \<^verbatim>\<open>"*"\<close>; one event with topic \<^verbatim>\<open>"a"\<close> at address 0.\<close>

definition ex_state :: "unit Emitter \<times> unit heap" where
  "ex_state =
     (case On (New 1) \<lparr>events = [NewEvent ''a'' ()], chans = []\<rparr> ''a'' 1 [Void] of (e1, h1) \<Rightarrow>
      case On e1 h1 ''a'' 2 [Once] of (e2, h2) \<Rightarrow> (Use e2 ''*'' [Skip], h2))"

lemma path_Match_a_a: "path_Match ''a'' ''a'' = Inr True"
  by code_simp

lemma path_Match_star_a: "path_Match ''*'' ''a'' = Inr True"
  by code_simp

lemma path_Match_a_b: "path_Match ''a'' ''b'' = Inr False" by code_simp
lemma path_Match_b_a: "path_Match ''b'' ''a'' = Inr False" by code_simp
lemma path_Match_a_astar: "path_Match ''a'' ''a*'' = Inr False" by code_simp
lemma path_Match_astar_a: "path_Match ''a*'' ''a'' = Inr True" by code_simp

lemma flag_values: "FlagOnce = 1" "FlagVoid = 2" "FlagSkip = 4"
  by (simp_all add: FlagOnce_def FlagVoid_def FlagSkip_def)

lemma ex_state_eq:
  "ex_state =
     (\<lparr>Cap = 1,
       listMans = [(''a'', [(1, \<lparr>lm_ch = 0, lm_middlewares = [Void], lm_listener = 1\<rparr>),
                           (2, \<lparr>lm_ch = 1, lm_middlewares = [Once], lm_listener = 2\<rparr>)])],
       middlewares = [(''*'', [Skip])]\<rparr>,
      \<lparr>events = [BasicEvent ''a'' 0 ()], chans = [make_chan 1, make_chan 1]\<rparr>)"
  by (simp add: ex_state_def On_def New_def Use_def newListenerManager_def NewEvent_def)

lemma ex_getMiddlewares: "getMiddlewares path_Match (fst ex_state) ''a'' = [Skip]"
  by (simp add: ex_state_eq getMiddlewares_def path_Match_star_a)

lemma ex_matched: "fst (matched path_Match (fst ex_state) ''a'') = [''a'']"
  by (simp add: ex_state_eq matched_def path_Match_a_a)

lemma ex_subscriptions:
  "subscriptions (fst ex_state) ''a'' =
     [(1, \<lparr>lm_ch = 0, lm_middlewares = [Void], lm_listener = 1\<rparr>),
      (2, \<lparr>lm_ch = 1, lm_middlewares = [Once], lm_listener = 2\<rparr>)]"
  by (simp add: ex_state_eq subscriptions_def)

lemma ex_Emit:
  "Emit path_Match (fst ex_state) (snd ex_state) 0 =
     (\<lparr>events = [BasicEvent ''a'' 4 (), BasicEvent ''a'' 6 (), BasicEvent ''a'' 5 ()],
       chans = [make_chan 1, make_chan 1]\<rparr>,
      [(\<lparr>lm_ch = 1, lm_middlewares = [Once], lm_listener = 2\<rparr>, 2)])"
proof -
  have topic: "Topic (events (snd ex_state) ! 0) = ''a''" by (simp add: ex_state_eq)
  have ev: "0 < length (events (snd ex_state))" by (simp add: ex_state_eq)
  have "Emit path_Match (fst ex_state) (snd ex_state) 0 =
        Emit_topic path_Match (fst ex_state) 0 (snd ex_state, []) ''a''"
    by (simp add: Emit_def topic ex_matched)
  also have "\<dots> = (\<lparr>events = [BasicEvent ''a'' 4 (), BasicEvent ''a'' 6 (), BasicEvent ''a'' 5 ()],
       chans = [make_chan 1, make_chan 1]\<rparr>,
      [(\<lparr>lm_ch = 1, lm_middlewares = [Once], lm_listener = 2\<rparr>, 2)])"
    unfolding Emit_topic_eq[OF ev] ex_getMiddlewares ex_subscriptions
    by (simp add: ex_state_eq chain_def clones_def isVoid_def Skip_def Void_def Once_def flag_values)
  finally show ?thesis .
qed

text \<open>A second example: two event objects, the second an \<^verbatim>\<open>EventOf[string]\<close> with topic
  \<^verbatim>\<open>"a"\<close>; listener 1 subscribed to \<^verbatim>\<open>"a"\<close> with \<open>Once\<close>; \<open>Skip\<close> registered for the pattern
  \<^verbatim>\<open>"*"\<close> and \<open>Void\<close> for the pattern \<^verbatim>\<open>"b"\<close>, which does not match \<^verbatim>\<open>"a"\<close>.\<close>

definition ex_typed :: "unit Emitter \<times> unit heap" where
  "ex_typed =
     (case On (New 1) \<lparr>events = [NewEvent ''z'' (), NewEventOf ''string'' ''a'' ()], chans = []\<rparr>
             ''a'' 1 [Once] of
        (e1, h1) \<Rightarrow> (Use (Use e1 ''*'' [Skip]) ''b'' [Void], h1))"

lemma ex_typed_eq:
  "ex_typed =
     (\<lparr>Cap = 1,
       listMans = [(''a'', [(1, \<lparr>lm_ch = 0, lm_middlewares = [Once], lm_listener = 1\<rparr>)])],
       middlewares = [(''*'', [Skip]), (''b'', [Void])]\<rparr>,
      \<lparr>events = [BasicEvent ''z'' 0 (), EventOf ''string'' ''a'' 0 ()], chans = [make_chan 1]\<rparr>)"
  by (simp add: ex_typed_def On_def New_def Use_def newListenerManager_def NewEvent_def NewEventOf_def)

lemma ex_typed_subscriptions:
  "subscriptions (fst ex_typed) ''a'' = [(1, \<lparr>lm_ch = 0, lm_middlewares = [Once], lm_listener = 1\<rparr>)]"
  by (simp add: ex_typed_eq subscriptions_def)

theorem Emit_topic_middleware_scopes_witness:
  "events (fst (Emit_topic path_Match (fst ex_state) 0 (snd ex_state, []) ''a'')) ! 0 = BasicEvent ''a'' 4 () \<and>
   length (events (fst (Emit_topic path_Match (fst ex_state) 0 (snd ex_state, []) ''a''))) = 3 \<and>
   events (fst (Emit_topic path_Match (fst ex_state) 0 (snd ex_state, []) ''a'')) ! 1 = BasicEvent ''a'' 6 () \<and>
   events (fst (Emit_topic path_Match (fst ex_state) 0 (snd ex_state, []) ''a'')) ! 2 = BasicEvent ''a'' 5 () \<and>
   events (fst (Emit path_Match (fst ex_state) (snd ex_state) 0)) ! 0 = BasicEvent ''a'' 4 () \<and>
   getMiddlewares path_Match (fst ex_typed) ''a'' = [Skip] \<and>
   Clone (EventOf ''string'' ''a'' 4 ()) = EventOf ''string'' ''a'' 4 () \<and>
   events (fst (Emit_topic path_Match (fst ex_typed) 1 (snd ex_typed, []) ''a'')) ! 0 = BasicEvent ''z'' 0 () \<and>
   events (fst (Emit_topic path_Match (fst ex_typed) 1 (snd ex_typed, []) ''a'')) ! 1 = EventOf ''string'' ''a'' 4 () \<and>
   events (fst (Emit_topic path_Match (fst ex_typed) 1 (snd ex_typed, []) ''a'')) ! 2 = EventOf ''string'' ''a'' 5 ()"
proof -
  have ev: "0 < length (events (snd ex_state))" by (simp add: ex_state_eq)
  note t = Emit_topic_middleware_scopes[OF ev, where pm=path_Match and e="fst ex_state"
      and launched="[]" and t="''a''" and x="BasicEvent ''a'' 0 ()"]
  have c: "chain [Skip] (events (snd ex_state) ! 0) = BasicEvent ''a'' 4 ()"
    by (simp add: ex_state_eq chain_def Skip_def flag_values)
  from t have 1: "events (fst (Emit_topic path_Match (fst ex_state) 0 (snd ex_state, []) ''a'')) ! 0 =
      BasicEvent ''a'' 4 ()"
    by (simp add: ex_getMiddlewares c)
  from t have 2: "length (events (fst (Emit_topic path_Match (fst ex_state) 0 (snd ex_state, []) ''a''))) = 3"
    by (simp add: ex_subscriptions) (simp add: ex_state_eq)
  from t have q: "\<forall>i<length (subscriptions (fst ex_state) ''a'').
      events (fst (Emit_topic path_Match (fst ex_state) 0 (snd ex_state, []) ''a'')) !
        (length (events (snd ex_state)) + i) =
      chain (lm_middlewares (snd (subscriptions (fst ex_state) ''a'' ! i)))
        (chain (getMiddlewares path_Match (fst ex_state) ''a'') (events (snd ex_state) ! 0))"
    by blast
  have l: "length (events (snd ex_state)) = 1" by (simp add: ex_state_eq)
  have e0: "events (snd ex_state) ! 0 = BasicEvent ''a'' 0 ()" by (simp add: ex_state_eq)
  from q[rule_format, of 0] have
    "events (fst (Emit_topic path_Match (fst ex_state) 0 (snd ex_state, []) ''a'')) !
       (length (events (snd ex_state)) + 0) = BasicEvent ''a'' 6 ()"
    by (simp add: ex_subscriptions ex_getMiddlewares e0 chain_def Void_def Skip_def flag_values)
  then have 3:
    "events (fst (Emit_topic path_Match (fst ex_state) 0 (snd ex_state, []) ''a'')) ! 1 = BasicEvent ''a'' 6 ()"
    by (simp add: l)
  from q[rule_format, of 1] have
    "events (fst (Emit_topic path_Match (fst ex_state) 0 (snd ex_state, []) ''a'')) !
       (length (events (snd ex_state)) + 1) = BasicEvent ''a'' 5 ()"
    by (simp add: ex_subscriptions ex_getMiddlewares e0 chain_def Once_def Skip_def flag_values)
  then have 4:
    "events (fst (Emit_topic path_Match (fst ex_state) 0 (snd ex_state, []) ''a'')) ! 2 = BasicEvent ''a'' 5 ()"
    by (simp add: l numeral_2_eq_2)
  from t have 5: "events (fst (Emit path_Match (fst ex_state) (snd ex_state) 0)) ! 0 = BasicEvent ''a'' 4 ()"
    by (simp add: ex_Emit)
  have ev2: "1 < length (events (snd ex_typed))" by (simp add: ex_typed_eq)
  note u = Emit_topic_middleware_scopes[OF ev2, where pm=path_Match and e="fst ex_typed"
      and launched="[]" and t="''a''" and x="EventOf ''string'' ''a'' 4 ()"]
  from u have "getMiddlewares path_Match (fst ex_typed) ''a'' =
      concat (map snd (filter (\<lambda>entry. path_Match (fst entry) ''a'' = Inr True \<or>
                                         path_Match ''a'' (fst entry) = Inr True)
             (middlewares (fst ex_typed))))"
    by blast
  then have 6: "getMiddlewares path_Match (fst ex_typed) ''a'' = [Skip]"
    by (simp add: ex_typed_eq path_Match_star_a path_Match_a_b path_Match_b_a)
  from u have 7: "Clone (EventOf ''string'' ''a'' 4 ()) = EventOf ''string'' ''a'' 4 ()"
    by blast
  have l2: "length (events (snd ex_typed)) = 2" by (simp add: ex_typed_eq)
  have e1: "events (snd ex_typed) ! 1 = EventOf ''string'' ''a'' 0 ()" by (simp add: ex_typed_eq)
  from u have "\<forall>a<length (events (snd ex_typed)). a \<noteq> 1 \<longrightarrow>
      events (fst (Emit_topic path_Match (fst ex_typed) 1 (snd ex_typed, []) ''a'')) ! a =
      events (snd ex_typed) ! a"
    by blast
  from this[rule_format, of 0] have 8:
    "events (fst (Emit_topic path_Match (fst ex_typed) 1 (snd ex_typed, []) ''a'')) ! 0 = BasicEvent ''z'' 0 ()"
    by (simp add: ex_typed_eq)
  have c2: "chain [Skip] (events (snd ex_typed) ! 1) = EventOf ''string'' ''a'' 4 ()"
    by (simp add: ex_typed_eq chain_def Skip_def flag_values)
  have c3: "chain [Once] (EventOf ''string'' ''a'' 4 ()) = (EventOf ''string'' ''a'' 5 () :: unit Event)"
    by (simp add: chain_def Once_def flag_values)
  from u have x: "events (fst (Emit_topic path_Match (fst ex_typed) 1 (snd ex_typed, []) ''a'')) ! 1 =
      chain (getMiddlewares path_Match (fst ex_typed) ''a'') (events (snd ex_typed) ! 1)"
    by blast
  have 9:
    "events (fst (Emit_topic path_Match (fst ex_typed) 1 (snd ex_typed, []) ''a'')) ! 1 =
       EventOf ''string'' ''a'' 4 ()"
    by (simp only: x 6 c2)
  from u have q2: "\<forall>i<length (subscriptions (fst ex_typed) ''a'').
      events (fst (Emit_topic path_Match (fst ex_typed) 1 (snd ex_typed, []) ''a'')) !
        (length (events (snd ex_typed)) + i) =
      chain (lm_middlewares (snd (subscriptions (fst ex_typed) ''a'' ! i)))
        (chain (getMiddlewares path_Match (fst ex_typed) ''a'') (events (snd ex_typed) ! 1))"
    by blast
  have s0: "0 < length (subscriptions (fst ex_typed) ''a'')" by (simp add: ex_typed_subscriptions)
  have m0: "lm_middlewares (snd (subscriptions (fst ex_typed) ''a'' ! 0)) = [Once]"
    by (simp add: ex_typed_subscriptions)
  have idx: "length (events (snd ex_typed)) + 0 = 2" by (simp add: l2)
  from q2[rule_format, OF s0] have 10:
    "events (fst (Emit_topic path_Match (fst ex_typed) 1 (snd ex_typed, []) ''a'')) ! 2 =
       EventOf ''string'' ''a'' 5 ()"
    by (simp only: m0 6 c2 c3 idx)
  from 1 2 3 4 5 6 7 8 9 10 show ?thesis by blast
qed














section \<open>Unsubscribing\<close>

text \<open>Notions for stating what \<^verbatim>\<open>Off\<close> does. \<open>closeAll as h\<close> is the store \<open>h\<close> with the
  channels at the addresses \<open>as\<close> closed.\<close>

definition closeAll :: "nat list \<Rightarrow> 'v heap \<Rightarrow> 'v heap" where
  "closeAll as h =
     h\<lparr>chans := map (\<lambda>a. if a \<in> set as then (chans h ! a)\<lparr>ch_closed := True, recv_parked := False\<rparr>
                         else chans h ! a) [0..<length (chans h)]\<rparr>"

lemma closeAll_simps [simp]:
  "events (closeAll as h) = events h"
  "length (chans (closeAll as h)) = length (chans h)"
  "a < length (chans h) \<Longrightarrow> chans (closeAll as h) ! a =
     (if a \<in> set as then (chans h ! a)\<lparr>ch_closed := True, recv_parked := False\<rparr> else chans h ! a)"
  by (simp_all add: closeAll_def)

lemma heap_eqI:
  fixes h h' :: "'v heap"
  assumes "events h = events h'" "length (chans h) = length (chans h')"
    "\<And>a. a < length (chans h) \<Longrightarrow> chans h ! a = chans h' ! a" "heap.more h = heap.more h'"
  shows "h = h'"
  using assms by (cases h, cases h') (auto intro: nth_equalityI)

lemma closeAll_more [simp]: "heap.more (closeAll as h) = heap.more h"
  by (simp add: closeAll_def)

lemma closeAll_Nil [simp]: "closeAll [] h = h"
  by (rule heap_eqI) simp_all

lemma closeAll_closeAll: "closeAll as (closeAll bs h) = closeAll (bs @ as) h"
  by (rule heap_eqI) auto

lemma closeAll_cong_set: "set as = set bs \<Longrightarrow> closeAll as h = closeAll bs h"
  by (rule heap_eqI) auto

lemma close_ch_eq:
  "a < length (chans h) \<Longrightarrow> \<not> ch_closed (chans h ! a) \<Longrightarrow> close_ch a h = Inr (closeAll [a] h)"
  unfolding close_ch_def chan_close_def
  by (auto intro!: heap_eqI simp: nth_list_update)


text \<open>The channels of the managers of an inner map; and an inner map whose managers are
  stored under their listener's address, with channels that exist and are open.\<close>

definition chs :: "(Listener \<times> 'v listenerManager) list \<Rightarrow> nat list" where
  "chs sm = map (\<lambda>entry. lm_ch (snd entry)) sm"

definition open_sm :: "'v heap \<Rightarrow> (Listener \<times> 'v listenerManager) list \<Rightarrow> bool" where
  "open_sm h sm =
     list_all (\<lambda>entry. fst entry = lm_listener (snd entry) \<and> lm_ch (snd entry) < length (chans h) \<and>
                 \<not> ch_closed (chans h ! lm_ch (snd entry))) sm"

lemma chs_simps [simp]:
  "chs [] = []" "chs (entry # sm) = lm_ch (snd entry) # chs sm" "chs (sm @ sm') = chs sm @ chs sm'"
  by (simp_all add: chs_def)

lemma open_sm_simps [simp]:
  "open_sm h []"
  "open_sm h (entry # sm) \<longleftrightarrow>
     (fst entry = lm_listener (snd entry) \<and> lm_ch (snd entry) < length (chans h) \<and>
      \<not> ch_closed (chans h ! lm_ch (snd entry))) \<and> open_sm h sm"
  by (simp_all add: open_sm_def)

lemma open_sm_iff:
  "open_sm h sm \<longleftrightarrow>
     (\<forall>entry \<in> set sm. fst entry = lm_listener (snd entry) \<and> lm_ch (snd entry) < length (chans h) \<and>
        \<not> ch_closed (chans h ! lm_ch (snd entry)))"
  by (simp add: open_sm_def list_all_iff)

lemma open_sm_closeAll:
  "open_sm h sm \<Longrightarrow> set (chs sm) \<inter> set as = {} \<Longrightarrow> open_sm (closeAll as h) sm"
  by (auto simp: open_sm_iff chs_def)

lemma open_sm_filter: "open_sm h sm \<Longrightarrow> open_sm h (filter P sm)"
  by (auto simp: open_sm_iff)

lemma dropAll_range_eq:
  "distinct (chs entries) \<Longrightarrow> open_sm h entries \<Longrightarrow>
   dropAll_range entries sm h =
     Inr (foldl (\<lambda>m k. Delete k m) sm (map fst entries), closeAll (chs entries) h)"
proof (induction entries arbitrary: sm h)
  case Nil
  then show ?case by simp
next
  case (Cons entry entries)
  obtain k lm where entry: "entry = (k, lm)" by (cases entry)
  from Cons.prems entry have cl: "close_ch (lm_ch lm) h = Inr (closeAll [lm_ch lm] h)"
    by (simp add: close_ch_eq)
  have op: "open_sm (closeAll [lm_ch lm] h) entries"
    using Cons.prems entry by (intro open_sm_closeAll) auto
  have d: "distinct (chs entries)" using Cons.prems by simp
  show ?case
    unfolding entry
    by (simp add: cl Cons.IH[OF d op] closeAll_closeAll)
qed

lemma dropAll_eq:
  "distinct (chs sm) \<Longrightarrow> open_sm h sm \<Longrightarrow> \<exists>sm'. dropAll sm h = Inr (sm', closeAll (chs sm) h)"
  by (simp add: dropAll_def dropAll_range_eq)

lemma distinct_keys_filter_eq:
  "distinct (map fst sm) \<Longrightarrow> map_of sm l = Some lm \<Longrightarrow> filter (\<lambda>entry. fst entry = l) sm = [(l, lm)]"
proof (induction sm)
  case Nil
  then show ?case by simp
next
  case (Cons entry sm)
  show ?case
  proof (cases "fst entry = l")
    case True
    with Cons.prems have "entry = (l, lm)" by (cases entry) auto
    moreover from Cons.prems True have "l \<notin> fst ` set sm" by auto
    then have "filter (\<lambda>entry. fst entry = l) sm = []" by (auto simp: filter_empty_conv)
    ultimately show ?thesis by simp
  next
    case False
    with Cons show ?thesis by (cases entry) auto
  qed
qed

lemma map_of_None_filter:
  "map_of sm l = None \<Longrightarrow> filter (\<lambda>entry. fst entry = l) sm = [] \<and> filter (\<lambda>entry. fst entry \<noteq> l) sm = sm"
  by (auto simp: map_of_eq_None_iff filter_empty_conv filter_id_conv)

lemma Delete_filter: "Delete l sm = filter (\<lambda>entry. fst entry \<noteq> l) sm"
  by (induction sm) auto

lemma drop_listener_eq:
  assumes "distinct (map fst sm)" "open_sm h sm"
  shows "drop_listener sm l h =
     Inr (filter (\<lambda>entry. fst entry \<noteq> l) sm, closeAll (chs (filter (\<lambda>entry. fst entry = l) sm)) h)"
proof (cases "map_of sm l")
  case None
  then show ?thesis by (simp add: drop_listener_def map_of_None_filter)
next
  case (Some lm)
  then have mem: "(l, lm) \<in> set sm" by (rule map_of_SomeD)
  with assms(2) have "lm_ch lm < length (chans h)" "\<not> ch_closed (chans h ! lm_ch lm)"
    by (auto simp: open_sm_iff)
  then have "close_ch (lm_ch lm) h = Inr (closeAll [lm_ch lm] h)" by (rule close_ch_eq)
  then show ?thesis
    using Some by (simp add: drop_listener_def distinct_keys_filter_eq[OF assms(1) Some] Delete_filter)
qed

lemma distinct_chs_disjoint:
  assumes "distinct (chs sm)"
  shows "set (chs (filter P sm)) \<inter> set (chs (filter (\<lambda>x. \<not> P x) sm)) = {}"
  using assms
proof (induction sm)
  case Nil
  then show ?case by simp
next
  case (Cons entry sm)
  then have "lm_ch (snd entry) \<notin> set (chs sm)" and IH: "set (chs (filter P sm)) \<inter> set (chs (filter (\<lambda>x. \<not> P x) sm)) = {}"
    by simp_all
  then have "lm_ch (snd entry) \<notin> set (chs (filter Q sm))" for Q
    by (auto simp: chs_def)
  with IH show ?case by auto
qed

lemma distinct_chs_filter: "distinct (chs sm) \<Longrightarrow> distinct (chs (filter P sm))"
  by (simp add: chs_def distinct_map_filter)

lemma dropMany_eq:
  "distinct (map fst sm) \<Longrightarrow> distinct (chs sm) \<Longrightarrow> open_sm h sm \<Longrightarrow>
   dropMany sm ls h =
     Inr (filter (\<lambda>entry. fst entry \<notin> set ls) sm,
          closeAll (chs (filter (\<lambda>entry. fst entry \<in> set ls) sm)) h)"
proof (induction ls arbitrary: sm h)
  case Nil
  then show ?case by simp
next
  case (Cons l ls)
  let ?sm1 = "filter (\<lambda>entry. fst entry \<noteq> l) sm"
  let ?h1 = "closeAll (chs (filter (\<lambda>entry. fst entry = l) sm)) h"
  have d1: "distinct (map fst ?sm1)" using Cons.prems(1) by (simp add: distinct_map_filter)
  have d2: "distinct (chs ?sm1)" using Cons.prems(2) by (rule distinct_chs_filter)
  have disj: "set (chs ?sm1) \<inter> set (chs (filter (\<lambda>entry. fst entry = l) sm)) = {}"
    using distinct_chs_disjoint[OF Cons.prems(2), of "\<lambda>entry. fst entry \<noteq> l"] by simp
  have op: "open_sm ?h1 ?sm1"
    by (intro open_sm_closeAll open_sm_filter Cons.prems(3) disj)
  have f: "filter (\<lambda>entry. fst entry \<notin> set ls) ?sm1 = filter (\<lambda>entry. fst entry \<notin> set (l # ls)) sm"
    by (auto intro: filter_cong)
  have c: "closeAll (chs (filter (\<lambda>entry. fst entry \<in> set ls) ?sm1)) ?h1 =
           closeAll (chs (filter (\<lambda>entry. fst entry \<in> set (l # ls)) sm)) h"
    unfolding closeAll_closeAll
    by (rule closeAll_cong_set) (auto simp: chs_def)
  show ?case
    by (simp only: dropMany.simps drop_listener_eq[OF Cons.prems(1,3)] sum.case prod.case
        Cons.IH[OF d1 d2 op] f c)
qed


text \<open>A well-formed state: the keys of the registry and of each inner map are distinct
  (they are maps), no inner map is empty, every registered manager has an open channel of
  its own. \<^verbatim>\<open>New\<close> establishes it; \<^verbatim>\<open>On\<close>, \<^verbatim>\<open>Off\<close>, \<^verbatim>\<open>Use\<close>, \<^verbatim>\<open>Emit\<close> and the delivery attempts
  keep it (lemmas \<open>wf_state_New\<close>, \<open>wf_state_On\<close>, \<open>wf_state_off_registry\<close>,
  \<open>wf_state_Use\<close>, \<open>wf_state_Emit\<close>, \<open>wf_state_pushEvent\<close>).\<close>

definition wf_state :: "'v Emitter \<Rightarrow> 'v heap \<Rightarrow> bool" where
  "wf_state e h =
     (distinct (map fst (listMans e)) \<and>
      list_all (\<lambda>entry. snd entry \<noteq> [] \<and> distinct (map fst (snd entry)) \<and> open_sm h (snd entry))
        (listMans e) \<and>
      distinct (chs (concat (map snd (listMans e)))))"

text \<open>What \<^verbatim>\<open>Off(topic, listeners...)\<close> drops from and leaves in one inner map (no
  listeners: everything is dropped), and the registry and the closed channels after the
  call, for the list \<open>M\<close> of resolved topics.\<close>

definition dropped :: "Listener list \<Rightarrow> (Listener \<times> 'v listenerManager) list \<Rightarrow>
    (Listener \<times> 'v listenerManager) list" where
  "dropped ls sm = (if ls = [] then sm else filter (\<lambda>entry. fst entry \<in> set ls) sm)"

definition remaining :: "Listener list \<Rightarrow> (Listener \<times> 'v listenerManager) list \<Rightarrow>
    (Listener \<times> 'v listenerManager) list" where
  "remaining ls sm = (if ls = [] then [] else filter (\<lambda>entry. fst entry \<notin> set ls) sm)"

definition off_entry :: "Listener list \<Rightarrow> string list \<Rightarrow> string \<times> (Listener \<times> 'v listenerManager) list \<Rightarrow>
    (string \<times> (Listener \<times> 'v listenerManager) list) list" where
  "off_entry ls M entry =
     (if fst entry \<in> set M
      then (if remaining ls (snd entry) = [] then [] else [(fst entry, remaining ls (snd entry))])
      else [entry])"

definition off_registry :: "Listener list \<Rightarrow> string list \<Rightarrow>
    (string \<times> (Listener \<times> 'v listenerManager) list) list \<Rightarrow>
    (string \<times> (Listener \<times> 'v listenerManager) list) list" where
  "off_registry ls M lms = concat (map (off_entry ls M) lms)"

definition dropped_chs :: "Listener list \<Rightarrow> string list \<Rightarrow>
    (string \<times> (Listener \<times> 'v listenerManager) list) list \<Rightarrow> nat list" where
  "dropped_chs ls M lms =
     chs (concat (map (\<lambda>entry. if fst entry \<in> set M then dropped ls (snd entry) else []) lms))"

lemma Off_entry_eq:
  assumes "distinct (map fst sm)" "distinct (chs sm)" "open_sm h sm"
  shows "Off_entry ls t sm (e, h) =
     Inr (e\<lparr>listMans := (if remaining ls sm = [] then Delete t (listMans e)
                           else Store t (remaining ls sm) (listMans e))\<rparr>,
          closeAll (chs (dropped ls sm)) h)"
proof (cases "ls = []")
  case True
  from dropAll_eq[OF assms(2,3)] obtain sm' where "dropAll sm h = Inr (sm', closeAll (chs sm) h)" ..
  with True show ?thesis by (simp add: Off_entry_def remaining_def dropped_def)
next
  case False
  then show ?thesis
    by (simp add: Off_entry_def remaining_def dropped_def dropMany_eq[OF assms] Let_def)
qed

lemma Off_range_absent:
  "t \<notin> fst ` set lms \<Longrightarrow> Off_range ls t lms s = Inr s"
  by (induction lms) (auto split: prod.splits)

lemma Off_range_lookup:
  "distinct (map fst lms) \<Longrightarrow>
   Off_range ls t lms s = (case map_of lms t of None \<Rightarrow> Inr s | Some sm \<Rightarrow> Off_entry ls t sm s)"
proof (induction lms)
  case Nil
  then show ?case by simp
next
  case (Cons entry lms)
  obtain k sm where entry: "entry = (k, sm)" by (cases entry)
  show ?case
  proof (cases "k = t")
    case True
    with Cons.prems entry have "t \<notin> fst ` set lms" by auto
    then have "Off_range ls t lms s' = Inr s'" for s' by (rule Off_range_absent)
    with True entry show ?thesis by (simp split: sum.splits)
  next
    case False
    with Cons entry show ?thesis by simp
  qed
qed

lemma off_registry_absent:
  "t \<notin> fst ` set lms \<Longrightarrow> off_registry ls [t] lms = lms"
  by (induction lms) (auto simp: off_registry_def off_entry_def)

lemma dropped_chs_absent:
  "t \<notin> fst ` set lms \<Longrightarrow> dropped_chs ls [t] lms = []"
  by (induction lms) (auto simp: dropped_chs_def)

lemma off_registry_present:
  "distinct (map fst lms) \<Longrightarrow> map_of lms t = Some sm \<Longrightarrow>
   off_registry ls [t] lms =
     (if remaining ls sm = [] then Delete t lms else Store t (remaining ls sm) lms)"
proof (induction lms)
  case Nil
  then show ?case by simp
next
  case (Cons entry lms)
  obtain k sm0 where entry: "entry = (k, sm0)" by (cases entry)
  show ?case
  proof (cases "k = t")
    case True
    with Cons.prems entry have nt: "t \<notin> fst ` set lms" and sm0: "sm0 = sm" by auto
    have "off_registry ls [t] lms = lms" using nt by (rule off_registry_absent)
    then have tl: "concat (map (off_entry ls [t]) lms) = lms" by (simp add: off_registry_def)
    have del: "Delete t lms = lms" using nt by (simp add: Delete_filter filter_id_conv) force
    show ?thesis using True entry sm0 tl del
      by (simp add: off_registry_def off_entry_def)
  next
    case False
    with Cons.prems entry have "distinct (map fst lms)" "map_of lms t = Some sm" by auto
    from Cons.IH[OF this] False entry show ?thesis
      by (simp add: off_registry_def off_entry_def)
  qed
qed

lemma dropped_chs_present:
  "distinct (map fst lms) \<Longrightarrow> map_of lms t = Some sm \<Longrightarrow>
   dropped_chs ls [t] lms = chs (dropped ls sm)"
proof (induction lms)
  case Nil
  then show ?case by simp
next
  case (Cons entry lms)
  obtain k sm0 where entry: "entry = (k, sm0)" by (cases entry)
  show ?case
  proof (cases "k = t")
    case True
    with Cons.prems entry have nt: "t \<notin> fst ` set lms" and sm0: "sm0 = sm" by auto
    from dropped_chs_absent[OF nt, of ls] have "dropped_chs ls [t] lms = []" .
    then show ?thesis using True entry sm0 by (simp add: dropped_chs_def)
  next
    case False
    with Cons.prems entry have "distinct (map fst lms)" "map_of lms t = Some sm" by auto
    from Cons.IH[OF this] False entry show ?thesis
      by (simp add: dropped_chs_def)
  qed
qed

lemma wf_state_entry:
  assumes "wf_state e h" "map_of (listMans e) t = Some sm"
  shows "distinct (map fst sm)" "distinct (chs sm)" "open_sm h sm" "sm \<noteq> []"
proof -
  from assms(2) have mem: "(t, sm) \<in> set (listMans e)" by (rule map_of_SomeD)
  with assms(1) show "distinct (map fst sm)" "open_sm h sm" "sm \<noteq> []"
    by (auto simp: wf_state_def list_all_iff)
  from mem obtain xs ys where "listMans e = xs @ (t, sm) # ys" by (auto simp: in_set_conv_decomp)
  with assms(1) show "distinct (chs sm)" by (simp add: wf_state_def)
qed

text \<open>One round of the loop of \<^verbatim>\<open>Off\<close> over the matched topics, in closed form.\<close>

lemma Off_range_eq:
  assumes "wf_state e h"
  shows "Off_range ls t (listMans e) (e, h) =
     Inr (e\<lparr>listMans := off_registry ls [t] (listMans e)\<rparr>, closeAll (dropped_chs ls [t] (listMans e)) h)"
proof -
  from assms have d: "distinct (map fst (listMans e))" by (simp add: wf_state_def)
  show ?thesis
  proof (cases "map_of (listMans e) t")
    case None
    then have "t \<notin> fst ` set (listMans e)" by (simp add: map_of_eq_None_iff)
    then show ?thesis
      by (simp add: Off_range_absent off_registry_absent dropped_chs_absent)
  next
    case (Some sm)
    note w = wf_state_entry[OF assms Some]
    show ?thesis
      unfolding Off_range_lookup[OF d] Some option.case Off_entry_eq[OF w(1,2,3)]
        off_registry_present[OF d Some] dropped_chs_present[OF d Some]
      by simp
  qed
qed


text \<open>The same as filters, for the proofs.\<close>

definition keepP :: "Listener list \<Rightarrow> string list \<Rightarrow> string \<Rightarrow> Listener \<times> 'v listenerManager \<Rightarrow> bool" where
  "keepP ls M t x = (\<not> (t \<in> set M \<and> (ls = [] \<or> fst x \<in> set ls)))"

definition keep_of :: "Listener list \<Rightarrow> string list \<Rightarrow> string \<times> (Listener \<times> 'v listenerManager) list \<Rightarrow>
    (Listener \<times> 'v listenerManager) list" where
  "keep_of ls M entry = filter (keepP ls M (fst entry)) (snd entry)"

definition drop_of :: "Listener list \<Rightarrow> string list \<Rightarrow> string \<times> (Listener \<times> 'v listenerManager) list \<Rightarrow>
    (Listener \<times> 'v listenerManager) list" where
  "drop_of ls M entry = filter (\<lambda>x. \<not> keepP ls M (fst entry) x) (snd entry)"

lemma keep_of_eq:
  "keep_of ls M entry = (if fst entry \<in> set M then remaining ls (snd entry) else snd entry)"
  by (auto simp: keep_of_def keepP_def remaining_def intro: filter_cong)

lemma drop_of_eq:
  "drop_of ls M entry = (if fst entry \<in> set M then dropped ls (snd entry) else [])"
  by (auto simp: drop_of_def keepP_def dropped_def intro: filter_cong)

lemma dropped_chs_eq: "dropped_chs ls M lms = chs (concat (map (drop_of ls M) lms))"
  by (simp add: dropped_chs_def drop_of_eq cong: map_cong)

lemma off_entry_snd: "concat (map snd (off_entry ls M entry)) = keep_of ls M entry"
  by (simp add: off_entry_def keep_of_eq)

lemma off_registry_concat:
  "concat (map snd (off_registry ls M lms)) = concat (map (keep_of ls M) lms)"
  by (induction lms) (simp_all add: off_registry_def off_entry_snd)

lemma chs_set_filter: "set (chs (filter P sm)) \<subseteq> set (chs sm)"
  by (auto simp: chs_def)

lemma keep_drop_distinct:
  "distinct (chs (concat (map snd lms))) \<Longrightarrow>
   distinct (chs (concat (map (keep_of ls M) lms))) \<and>
   set (chs (concat (map (keep_of ls M) lms))) \<inter> set (chs (concat (map (drop_of ls M) lms))) = {}"
proof (induction lms)
  case Nil
  then show ?case by simp
next
  case (Cons entry lms)
  from Cons.prems have d1: "distinct (chs (snd entry))"
    and d2: "distinct (chs (concat (map snd lms)))"
    and dj: "set (chs (snd entry)) \<inter> set (chs (concat (map snd lms))) = {}"
    by simp_all
  note IH = Cons.IH[OF d2]
  have k1: "set (chs (keep_of ls M entry)) \<subseteq> set (chs (snd entry))"
    and r1: "set (chs (drop_of ls M entry)) \<subseteq> set (chs (snd entry))"
    by (simp_all add: keep_of_def drop_of_def chs_set_filter)
  have "set (chs (concat (map (keep_of ls M) lms))) \<subseteq> set (chs (concat (map snd lms)))"
    by (auto simp: chs_def keep_of_def)
  moreover have "set (chs (concat (map (drop_of ls M) lms))) \<subseteq> set (chs (concat (map snd lms)))"
    by (auto simp: chs_def drop_of_def)
  moreover have "set (chs (keep_of ls M entry)) \<inter> set (chs (drop_of ls M entry)) = {}"
    unfolding keep_of_def drop_of_def by (rule distinct_chs_disjoint[OF d1])
  moreover have "distinct (chs (keep_of ls M entry))"
    unfolding keep_of_def by (rule distinct_chs_filter[OF d1])
  ultimately show ?case using IH k1 r1 dj by (simp add: Int_Un_distrib Int_Un_distrib2) blast
qed

lemma off_registry_keys:
  "set (map fst (off_registry ls M lms)) \<subseteq> set (map fst lms)"
  by (induction lms) (auto simp: off_registry_def off_entry_def split: if_splits)

lemma off_registry_distinct_keys:
  "distinct (map fst lms) \<Longrightarrow> distinct (map fst (off_registry ls M lms))"
proof (induction lms)
  case Nil
  then show ?case by (simp add: off_registry_def)
next
  case (Cons entry lms)
  have "off_registry ls M (entry # lms) = off_entry ls M entry @ off_registry ls M lms"
    by (simp add: off_registry_def)
  moreover have "fst entry \<notin> set (map fst (off_registry ls M lms))"
    using Cons.prems off_registry_keys[of ls M lms] by auto
  ultimately show ?case using Cons by (auto simp: off_entry_def)
qed

lemma off_registry_entry:
  assumes "entry' \<in> set (off_registry ls M lms)"
  shows "\<exists>entry \<in> set lms. fst entry' = fst entry \<and> snd entry' = keep_of ls M entry \<and>
           (snd entry' \<noteq> [] \<or> fst entry \<notin> set M)"
proof -
  from assms obtain entry where en: "entry \<in> set lms" "entry' \<in> set (off_entry ls M entry)"
    by (auto simp: off_registry_def)
  from en(2) have "fst entry' = fst entry \<and> snd entry' = keep_of ls M entry \<and>
           (snd entry' \<noteq> [] \<or> fst entry \<notin> set M)"
    by (cases "fst entry \<in> set M"; cases "remaining ls (snd entry) = []")
       (auto simp: off_entry_def keep_of_eq)
  with en(1) show ?thesis by blast
qed

lemma wf_state_off_registry:
  assumes "wf_state e h"
  shows "wf_state (e\<lparr>listMans := off_registry ls M (listMans e)\<rparr>)
           (closeAll (dropped_chs ls M (listMans e)) h)"
proof -
  let ?lms = "listMans e"
  let ?h' = "closeAll (dropped_chs ls M ?lms) h"
  from assms have dk: "distinct (map fst ?lms)"
    and ents: "\<And>entry. entry \<in> set ?lms \<Longrightarrow>
        snd entry \<noteq> [] \<and> distinct (map fst (snd entry)) \<and> open_sm h (snd entry)"
    and dc: "distinct (chs (concat (map snd ?lms)))"
    by (auto simp: wf_state_def list_all_iff)
  note kd = keep_drop_distinct[OF dc, of ls M]
  have 1: "distinct (map fst (off_registry ls M ?lms))"
    by (rule off_registry_distinct_keys[OF dk])
  have 3: "distinct (chs (concat (map snd (off_registry ls M ?lms))))"
    using kd by (simp add: off_registry_concat)
  have 2: "snd entry' \<noteq> [] \<and> distinct (map fst (snd entry')) \<and> open_sm ?h' (snd entry')"
    if "entry' \<in> set (off_registry ls M ?lms)" for entry'
  proof -
    from off_registry_entry[OF that] obtain entry where en: "entry \<in> set ?lms"
      "fst entry' = fst entry" "snd entry' = keep_of ls M entry"
      and ne: "snd entry' \<noteq> [] \<or> fst entry \<notin> set M"
      by blast
    from ne have ne': "snd entry' \<noteq> []"
      using ents[OF en(1)] by (auto simp: en(3) keep_of_eq)
    have dk': "distinct (map fst (snd entry'))"
      using ents[OF en(1)] by (simp add: en(3) keep_of_def distinct_map_filter)
    have sub: "set (chs (snd entry')) \<subseteq> set (chs (concat (map (keep_of ls M) ?lms)))"
      using en(1) by (auto simp: en(3) chs_def)
    have op: "open_sm h (snd entry')"
      using ents[OF en(1)] by (simp add: en(3) keep_of_def open_sm_filter)
    have "open_sm ?h' (snd entry')"
      using sub kd by (intro open_sm_closeAll op) (auto simp: dropped_chs_eq)
    with ne' dk' show ?thesis by simp
  qed
  show ?thesis
    unfolding wf_state_def using 1 2 3 by (simp add: list_all_iff)
qed


lemma remaining_idem: "remaining ls (remaining ls sm) = remaining ls sm"
  by (simp add: remaining_def)

lemma dropped_remaining: "dropped ls (remaining ls sm) = []"
  by (simp add: dropped_def remaining_def)

lemma off_entry_compose:
  "concat (map (off_entry ls M) (off_entry ls [t] entry)) = off_entry ls (t # M) entry"
  by (simp add: off_entry_def remaining_idem)

lemma off_registry_compose:
  "off_registry ls M (off_registry ls [t] lms) = off_registry ls (t # M) lms"
proof (induction lms)
  case Nil
  show ?case by (simp add: off_registry_def)
next
  case (Cons entry lms)
  have "off_registry ls M (off_registry ls [t] (entry # lms)) =
        concat (map (off_entry ls M) (off_entry ls [t] entry)) @
        off_registry ls M (off_registry ls [t] lms)"
    by (simp add: off_registry_def)
  also have "\<dots> = off_entry ls (t # M) entry @ off_registry ls (t # M) lms"
    by (simp only: off_entry_compose Cons.IH)
  finally show ?case by (simp add: off_registry_def)
qed

lemma drop_of_compose:
  "set (drop_of ls [t] entry) \<union> set (concat (map (drop_of ls M) (off_entry ls [t] entry))) =
   set (drop_of ls (t # M) entry)"
  by (cases "fst entry = t"; cases "remaining ls (snd entry) = []"; cases "fst entry \<in> set M")
     (simp_all add: drop_of_eq off_entry_def dropped_remaining)

lemma drop_of_concat_compose:
  "set (concat (map (drop_of ls [t]) lms)) \<union>
   set (concat (map (drop_of ls M) (off_registry ls [t] lms))) =
   set (concat (map (drop_of ls (t # M)) lms))"
proof (induction lms)
  case Nil
  show ?case by (simp add: off_registry_def)
next
  case (Cons entry lms)
  define A where "A = set (drop_of ls [t] entry)"
  define A' where "A' = set (concat (map (drop_of ls [t]) lms))"
  define B where "B = set (concat (map (drop_of ls M) (off_entry ls [t] entry)))"
  define B' where "B' = set (concat (map (drop_of ls M) (off_registry ls [t] lms)))"
  define C where "C = set (drop_of ls (t # M) entry)"
  define C' where "C' = set (concat (map (drop_of ls (t # M)) lms))"
  have e: "A \<union> B = C" unfolding A_def B_def C_def by (rule drop_of_compose)
  have r: "A' \<union> B' = C'" unfolding A'_def B'_def C'_def by (rule Cons.IH)
  have l1: "set (concat (map (drop_of ls [t]) (entry # lms))) = A \<union> A'"
    by (simp add: A_def A'_def)
  have l2: "set (concat (map (drop_of ls M) (off_registry ls [t] (entry # lms)))) = B \<union> B'"
    by (simp add: B_def B'_def off_registry_def)
  have l3: "set (concat (map (drop_of ls (t # M)) (entry # lms))) = C \<union> C'"
    by (simp add: C_def C'_def)
  show ?case unfolding l1 l2 l3 using e r by blast
qed

lemma dropped_chs_compose:
  "set (dropped_chs ls [t] lms) \<union> set (dropped_chs ls M (off_registry ls [t] lms)) =
   set (dropped_chs ls (t # M) lms)"
proof -
  have "set (chs xs) \<union> set (chs ys) = set (chs zs)" if "set xs \<union> set ys = set zs"
    for xs ys zs :: "(Listener \<times> 'v listenerManager) list"
  proof -
    have "set (chs xs) \<union> set (chs ys) = (\<lambda>entry. lm_ch (snd entry)) ` (set xs \<union> set ys)"
      by (simp add: chs_def image_Un)
    also have "\<dots> = set (chs zs)" by (simp add: that chs_def)
    finally show ?thesis .
  qed
  from this[OF drop_of_concat_compose] show ?thesis by (simp only: dropped_chs_eq)
qed

lemma off_registry_Nil [simp]: "off_registry ls [] lms = lms"
  by (induction lms) (simp_all add: off_registry_def off_entry_def)

lemma dropped_chs_Nil [simp]: "dropped_chs ls [] lms = []"
  by (induction lms) (simp_all add: dropped_chs_def)

text \<open>\<^verbatim>\<open>Off\<close> in closed form, on a well-formed state.\<close>

lemma Off_topics_eq:
  "wf_state e h \<Longrightarrow>
   Off_topics ls M (e, h) =
     Inr (e\<lparr>listMans := off_registry ls M (listMans e)\<rparr>, closeAll (dropped_chs ls M (listMans e)) h)"
proof (induction M arbitrary: e h)
  case Nil
  show ?case by simp
next
  case (Cons t M)
  let ?e1 = "e\<lparr>listMans := off_registry ls [t] (listMans e)\<rparr>"
  let ?h1 = "closeAll (dropped_chs ls [t] (listMans e)) h"
  have wf1: "wf_state ?e1 ?h1" by (rule wf_state_off_registry[OF Cons.prems])
  have c: "closeAll (dropped_chs ls M (listMans ?e1)) ?h1 = closeAll (dropped_chs ls (t # M) (listMans e)) h"
    unfolding closeAll_closeAll
    by (rule closeAll_cong_set) (simp add: dropped_chs_compose)
  have "Off_topics ls (t # M) (e, h) = Off_topics ls M (?e1, ?h1)"
    by (simp add: Off_range_eq[OF Cons.prems])
  also have "\<dots> = Inr (?e1\<lparr>listMans := off_registry ls M (listMans ?e1)\<rparr>,
                        closeAll (dropped_chs ls M (listMans ?e1)) ?h1)"
    by (rule Cons.IH[OF wf1])
  also have "\<dots> = Inr (e\<lparr>listMans := off_registry ls (t # M) (listMans e)\<rparr>,
                        closeAll (dropped_chs ls (t # M) (listMans e)) h)"
    by (simp only: c) (simp add: off_registry_compose)
  finally show ?case .
qed

lemma Off_eq:
  "wf_state e h \<Longrightarrow>
   Off pm e h topic ls =
     Inr (e\<lparr>listMans := off_registry ls (fst (matched pm e topic)) (listMans e)\<rparr>,
          closeAll (dropped_chs ls (fst (matched pm e topic)) (listMans e)) h)"
  by (simp add: Off_def Off_topics_eq)


lemma takeWhile_filter_keys:
  assumes "\<And>x. x \<in> set xs \<Longrightarrow> \<not> K x \<Longrightarrow> ok (f x)"
  shows "set (takeWhile ok (map f (filter K xs))) \<subseteq> set (takeWhile ok (map f xs))"
  using assms
proof (induction xs)
  case Nil
  show ?case by simp
next
  case (Cons x xs)
  then have IH: "set (takeWhile ok (map f (filter K xs))) \<subseteq> set (takeWhile ok (map f xs))"
    by simp
  show ?case
  proof (cases "K x")
    case True
    with IH show ?thesis by auto
  next
    case False
    with Cons.prems have "ok (f x)" by simp
    with False IH show ?thesis by auto
  qed
qed

definition keepE :: "Listener list \<Rightarrow> string list \<Rightarrow> string \<times> (Listener \<times> 'v listenerManager) list \<Rightarrow> bool" where
  "keepE ls M entry = (\<not> (fst entry \<in> set M \<and> remaining ls (snd entry) = []))"

lemma off_registry_keys_filter:
  "map fst (off_registry ls M lms) = map fst (filter (keepE ls M) lms)"
  by (induction lms) (simp_all add: off_registry_def off_entry_def keepE_def)

lemma matched_after_off_subset:
  assumes M: "M = fst (matched pm e topic)"
  shows "set (fst (matched pm (e\<lparr>listMans := off_registry ls M (listMans e)\<rparr>) topic)) \<subseteq> set M"
proof -
  let ?ok = "\<lambda>K. \<not> isl (pm topic K)"
  have ok: "?ok (fst entry)" if "entry \<in> set (listMans e)" "\<not> keepE ls M entry" for entry
  proof -
    from that(2) have "fst entry \<in> set M" by (simp add: keepE_def)
    then have "fst entry \<in> set (takeWhile ?ok (map fst (listMans e)))"
      by (simp add: M fst_matched)
    then show ?thesis by (rule set_takeWhileD[THEN conjunct2])
  qed
  have "set (takeWhile ?ok (map fst (filter (keepE ls M) (listMans e)))) \<subseteq>
        set (takeWhile ?ok (map fst (listMans e)))"
    by (rule takeWhile_filter_keys) (rule ok)
  then show ?thesis
    by (auto simp: M fst_matched off_registry_keys_filter)
qed

lemma matched_keys: "set (fst (matched pm e topic)) \<subseteq> fst ` set (listMans e)"
  by (auto simp: fst_matched dest: set_takeWhileD)

lemma off_registry_all:
  "off_registry [] M lms = filter (\<lambda>entry. fst entry \<notin> set M) lms"
  by (induction lms) (simp_all add: off_registry_def off_entry_def remaining_def)

lemma dropped_chs_all:
  "dropped_chs [] M lms = chs (concat (map snd (filter (\<lambda>entry. fst entry \<in> set M) lms)))"
  by (induction lms) (simp_all add: dropped_chs_def dropped_def)

lemma matched_after_off_all:
  assumes M: "M = fst (matched pm e topic)"
  shows "fst (matched pm (e\<lparr>listMans := filter (\<lambda>entry. fst entry \<notin> set M) (listMans e)\<rparr>) topic) = []"
proof -
  let ?e' = "e\<lparr>listMans := filter (\<lambda>entry. fst entry \<notin> set M) (listMans e)\<rparr>"
  have "set (fst (matched pm ?e' topic)) \<subseteq> set M"
    using matched_after_off_subset[OF M, of "[]"] by (simp add: off_registry_all)
  moreover have "set (fst (matched pm ?e' topic)) \<subseteq> fst ` set (listMans ?e')"
    by (rule matched_keys)
  ultimately have "\<forall>k. k \<notin> set (fst (matched pm ?e' topic))" by fastforce
  then show ?thesis by (cases "fst (matched pm ?e' topic)") auto
qed

lemma Listeners_set:
  "set (Listeners pm e topic) =
     {lm_listener (snd x) | x entry. entry \<in> set (listMans e) \<and>
        fst entry \<in> set (fst (matched pm e topic)) \<and> x \<in> set (snd entry)}"
  by (auto simp: Listeners_def split: if_splits prod.splits) force+


lemma concat_map_singleton:
  "(\<And>x. x \<in> set xs \<Longrightarrow> f x = [x]) \<Longrightarrow> concat (map f xs) = xs"
  by (induction xs) simp_all

lemma concat_map_Nil:
  "(\<And>x. x \<in> set xs \<Longrightarrow> f x = []) \<Longrightarrow> concat (map f xs) = []"
  by (induction xs) simp_all

lemma Off_absent_listeners:
  assumes wf: "wf_state e h" and ne: "ls \<noteq> []"
    and absent: "set ls \<inter> set (Listeners pm e topic) = {}"
  shows "Off pm e h topic ls = Inr (e, h)"
proof -
  let ?M = "fst (matched pm e topic)"
  have keys: "fst x \<notin> set ls" if "entry \<in> set (listMans e)" "fst entry \<in> set ?M" "x \<in> set (snd entry)"
    for entry x
  proof -
    from wf that(1,3) have "fst x = lm_listener (snd x)"
      by (auto simp: wf_state_def list_all_iff open_sm_iff)
    moreover from that have "lm_listener (snd x) \<in> set (Listeners pm e topic)"
      unfolding Listeners_set by blast
    ultimately show ?thesis using absent by auto
  qed
  have rem: "remaining ls (snd entry) = snd entry" and drp: "dropped ls (snd entry) = []"
    if "entry \<in> set (listMans e)" "fst entry \<in> set ?M" for entry
    using keys[OF that] ne by (auto simp: remaining_def dropped_def filter_id_conv filter_empty_conv)
  have nonempty: "snd entry \<noteq> []" if "entry \<in> set (listMans e)" for entry
    using wf that by (auto simp: wf_state_def list_all_iff)
  have "off_registry ls ?M (listMans e) = listMans e"
    unfolding off_registry_def
    by (rule concat_map_singleton) (auto simp: off_entry_def rem nonempty)
  moreover have "dropped_chs ls ?M (listMans e) = []"
  proof -
    have "concat (map (\<lambda>entry. if fst entry \<in> set ?M then dropped ls (snd entry) else []) (listMans e)) = []"
      by (rule concat_map_Nil) (simp add: drp)
    then show ?thesis by (simp only: dropped_chs_def chs_simps)
  qed
  ultimately show ?thesis by (simp add: Off_eq[OF wf])
qed

lemma closeAll_closed:
  "a \<in> set as \<Longrightarrow> a < length (chans h) \<Longrightarrow> ch_closed (chans (closeAll as h) ! a)"
  by simp

lemma send_keeps_closed:
  "send pick done c x wait = Some (sent, canceled, c') \<Longrightarrow> ch_closed c' = ch_closed c"
  by (auto simp: send_def send_body_def select_send_def chan_send_def
      split: if_splits sum.splits option.splits select_case.splits)

lemma send_sent_not_canceled:
  "send pick done c x wait = Some (True, canceled, c') \<Longrightarrow> \<not> canceled"
  by (auto simp: send_def send_body_def select_send_def chan_send_def
      split: if_splits sum.splits option.splits select_case.splits)

lemma pushEvent_frame:
  assumes "pushEvent pick done h a event = Some (res, h1)"
  shows "events h1 = events h" "length (chans h1) = length (chans h)"
    "ch_closed (chans h1 ! b) = ch_closed (chans h ! b)"
proof -
  from assms obtain sent canceled c' where
    s: "send pick done (chans h ! a) event
          (\<not> ((Flag (events h ! event) OR FlagSkip) = Flag (events h ! event))) = Some (sent, canceled, c')"
    and h1: "h1 = h\<lparr>chans := (chans h)[a := c']\<rparr>"
    by (auto simp: pushEvent_def Let_def split: option.splits)
  show "events h1 = events h" "length (chans h1) = length (chans h)" by (simp_all add: h1)
  show "ch_closed (chans h1 ! b) = ch_closed (chans h ! b)"
    using send_keeps_closed[OF s]
    by (cases "a < length (chans h)") (auto simp: h1 nth_list_update list_update_beyond)
qed

lemma pushEvent_sent:
  assumes "pushEvent pick done h a event = Some ((True, remove, err), h1)"
  shows "remove = ((Flag (events h ! event) OR FlagOnce) = Flag (events h ! event))" "err = None"
proof -
  from assms obtain canceled c' where
    s: "send pick done (chans h ! a) event
          (\<not> ((Flag (events h ! event) OR FlagSkip) = Flag (events h ! event))) = Some (True, canceled, c')"
    and r: "remove = (if \<not> True \<and> \<not> canceled then False
                      else if \<not> canceled then (Flag (events h ! event) OR FlagOnce) = Flag (events h ! event)
                      else False)" and e: "err = None"
    by (auto simp: pushEvent_def Let_def split: option.splits)
  from send_sent_not_canceled[OF s] r show "remove = ((Flag (events h ! event) OR FlagOnce) = Flag (events h ! event))"
    by simp
  show "err = None" by (rule e)
qed

lemma wf_state_frame:
  assumes "length (chans h1) = length (chans h)"
    "\<And>b. ch_closed (chans h1 ! b) = ch_closed (chans h ! b)"
  shows "wf_state e h1 = wf_state e h"
  using assms by (simp add: wf_state_def open_sm_def)


lemma wf_state_sub:
  assumes "wf_state e h" "entry \<in> set (listMans e)" "x \<in> set (snd entry)"
  shows "fst x = lm_listener (snd x)" "lm_ch (snd x) < length (chans h)"
    "\<not> ch_closed (chans h ! lm_ch (snd x))"
proof -
  from assms(1,2) have "open_sm h (snd entry)" by (simp add: wf_state_def list_all_iff)
  with assms(3) show "fst x = lm_listener (snd x)" "lm_ch (snd x) < length (chans h)"
    "\<not> ch_closed (chans h ! lm_ch (snd x))"
    by (simp_all add: open_sm_iff)
qed

lemma foldl_Emit_topic_launched:
  "event < length (events h) \<Longrightarrow>
   att \<in> set (snd (foldl (Emit_topic pm e event) (h, launched) ts)) \<Longrightarrow>
   att \<in> set launched \<or> (\<exists>t \<in> set ts. \<exists>x \<in> set (subscriptions e t). fst att = snd x)"
proof (induction ts arbitrary: h launched)
  case Nil
  then show ?case by simp
next
  case (Cons t ts)
  let ?r = "Emit_topic pm e event (h, launched) t"
  note st = Emit_topic_step[OF Cons.prems(1), where pm=pm and e=e and t=t and launched=launched]
  have ev1: "event < length (events (fst ?r))"
    using Cons.prems(1) by (simp add: st(1))
  from Cons.prems(2) have "att \<in> set (snd (foldl (Emit_topic pm e event) (fst ?r, snd ?r) ts))"
    by simp
  from Cons.IH[OF ev1 this]
  have "att \<in> set (snd ?r) \<or> (\<exists>t \<in> set ts. \<exists>x \<in> set (subscriptions e t). fst att = snd x)" .
  moreover have "att \<in> set launched \<or> (\<exists>x \<in> set (subscriptions e t). fst att = snd x)"
    if "att \<in> set (snd ?r)"
  proof (cases "att \<in> set launched")
    case True
    then show ?thesis ..
  next
    case False
    with that have "att \<in> set (launches (chain (getMiddlewares pm e t) (events h ! event))
        (length (events h)) (subscriptions e t))"
      by (simp add: st(3))
    from launches_index[OF this] show ?thesis by auto
  qed
  ultimately show ?case by auto
qed

lemma Emit_launched:
  assumes "event < length (events h)" "att \<in> set (snd (Emit pm e h event))"
  shows "\<exists>t \<in> set (fst (matched pm e (Topic (events h ! event)))).
           \<exists>x \<in> set (subscriptions e t). fst att = snd x"
  using foldl_Emit_topic_launched[OF assms(1), where att=att and pm=pm and e=e and launched="[]"] assms(2)
  by (simp add: Emit_def)

lemma subscriptions_mem:
  "x \<in> set (subscriptions e t) \<longleftrightarrow> (\<exists>entry \<in> set (listMans e). fst entry = t \<and> x \<in> set (snd entry))"
  by (force simp: subscriptions_def)

text \<open>On a well-formed state every attempt that \<^verbatim>\<open>Emit\<close> launches is for a manager that the
  registry holds, under its listener's address, under a topic that the resolution of the
  emitted topic returns.\<close>

lemma Emit_launched_registered:
  assumes wf: "wf_state e h" and ev: "event < length (events h)"
    and att: "att \<in> set (snd (Emit pm e h event))"
  shows "\<exists>K sm. K \<in> set (fst (matched pm e (Topic (events h ! event)))) \<and>
           map_of (listMans e) K = Some sm \<and>
           map_of sm (lm_listener (fst att)) = Some (fst att)"
proof -
  from Emit_launched[OF ev att] obtain t x where
    t: "t \<in> set (fst (matched pm e (Topic (events h ! event))))"
    and x: "x \<in> set (subscriptions e t)" and a: "fst att = snd x"
    by blast
  from x obtain entry where en: "entry \<in> set (listMans e)" "fst entry = t" "x \<in> set (snd entry)"
    by (auto simp: subscriptions_mem)
  from wf have dk: "distinct (map fst (listMans e))" by (simp add: wf_state_def)
  from wf en(1) have di: "distinct (map fst (snd entry))" by (simp add: wf_state_def list_all_iff)
  from en(1,2) have "(t, snd entry) \<in> set (listMans e)" by (cases entry) auto
  with dk have 1: "map_of (listMans e) t = Some (snd entry)" by (rule map_of_is_SomeI)
  from en(3) have "(fst x, snd x) \<in> set (snd entry)" by simp
  with di have "map_of (snd entry) (fst x) = Some (snd x)" by (rule map_of_is_SomeI)
  with wf_state_sub(1)[OF wf en(1,3)] a
  have 2: "map_of (snd entry) (lm_listener (fst att)) = Some (fst att)" by simp
  from t 1 2 show ?thesis by blast
qed

text \<open>After \<^verbatim>\<open>Off(topic, l)\<close> no subscription under a topic that matches \<open>topic\<close> belongs to \<open>l\<close>.\<close>

lemma Off_one_removes:
  assumes wf: "wf_state e h"
    and e': "e' = e\<lparr>listMans := off_registry [l] (fst (matched pm e topic)) (listMans e)\<rparr>"
    and t: "t \<in> set (fst (matched pm e' topic))"
    and x: "x \<in> set (subscriptions e' t)"
  shows "fst x \<noteq> l \<and> lm_listener (snd x) \<noteq> l"
proof -
  let ?M = "fst (matched pm e topic)"
  let ?h' = "closeAll (dropped_chs [l] ?M (listMans e)) h"
  have wf': "wf_state e' ?h'" unfolding e' by (rule wf_state_off_registry[OF wf])
  from t have tM: "t \<in> set ?M"
    using matched_after_off_subset[OF refl, where pm=pm and e=e and topic=topic and ls="[l]"]
    by (auto simp: e')
  from x obtain entry' where en': "entry' \<in> set (listMans e')" "fst entry' = t" "x \<in> set (snd entry')"
    by (auto simp: subscriptions_mem)
  from en'(1) have "entry' \<in> set (off_registry [l] ?M (listMans e))" by (simp add: e')
  from off_registry_entry[OF this] obtain entry where
    en: "fst entry' = fst entry" "snd entry' = keep_of [l] ?M entry" by blast
  from en en'(2) tM have "snd entry' = remaining [l] (snd entry)" by (simp add: keep_of_eq)
  with en'(3) have k: "fst x \<noteq> l" by (auto simp: remaining_def)
  from wf' en'(1,3) have "fst x = lm_listener (snd x)"
    by (auto simp: wf_state_def list_all_iff open_sm_iff)
  with k show ?thesis by simp
qed




lemma wf_state_New: "wf_state (New capacity) h"
  by (simp add: wf_state_def New_def)

lemma update_absent: "k \<notin> fst ` set al \<Longrightarrow> AList.update k v al = al @ [(k, v)]"
  by (induction al) auto

lemma update_present:
  "map_of al k = Some v0 \<Longrightarrow>
   \<exists>xs ys. al = xs @ (k, v0) # ys \<and> k \<notin> fst ` set xs \<and> AList.update k v al = xs @ (k, v) # ys"
proof (induction al)
  case Nil
  then show ?case by simp
next
  case (Cons p al)
  show ?case
  proof (cases "fst p = k")
    case True
    with Cons.prems have "p = (k, v0)" by (cases p) auto
    then have "p # al = [] @ (k, v0) # al \<and> k \<notin> fst ` set [] \<and>
               AList.update k v (p # al) = [] @ (k, v) # al"
      by simp
    then show ?thesis by blast
  next
    case False
    with Cons.prems have "map_of al k = Some v0" by (cases p) auto
    from Cons.IH[OF this] obtain xs ys where
      "al = xs @ (k, v0) # ys" "k \<notin> fst ` set xs" "AList.update k v al = xs @ (k, v) # ys"
      by blast
    with False have "p # al = (p # xs) @ (k, v0) # ys \<and> k \<notin> fst ` set (p # xs) \<and>
               AList.update k v (p # al) = (p # xs) @ (k, v) # ys"
      by (cases p) auto
    then show ?thesis by blast
  qed
qed

lemma distinct_replace:
  assumes "distinct (A @ S @ B)" "distinct S'" "set S' \<subseteq> set S \<union> {n}" "n \<notin> set A \<union> set B"
  shows "distinct (A @ S' @ B)"
  using assms by auto

lemma open_sm_alloc:
  "open_sm h sm \<Longrightarrow> open_sm (h\<lparr>chans := chans h @ [c]\<rparr>) sm"
  by (auto simp: open_sm_iff nth_append)

lemma open_sm_bound: "open_sm h sm \<Longrightarrow> a \<in> set (chs sm) \<Longrightarrow> a < length (chans h)"
  by (auto simp: open_sm_iff chs_def)

text \<open>The inner map after \<^verbatim>\<open>Store(listener, l)\<close> with a manager on a fresh channel.\<close>

lemma inner_Store:
  fixes sm :: "(Listener \<times> 'v listenerManager) list"
  assumes d: "distinct (map fst sm)" and c: "distinct (chs sm)" and op: "open_sm h sm"
    and lm: "lm = \<lparr>lm_ch = length (chans h), lm_middlewares = mws, lm_listener = l\<rparr>"
  shows "Store l lm sm \<noteq> []" "distinct (map fst (Store l lm sm))"
    "open_sm (h\<lparr>chans := chans h @ [make_chan cap]\<rparr>) (Store l lm sm)"
    "distinct (chs (Store l lm sm))" "set (chs (Store l lm sm)) \<subseteq> set (chs sm) \<union> {length (chans h)}"
proof -
  let ?h' = "h\<lparr>chans := chans h @ [make_chan cap]\<rparr>"
  have fresh: "length (chans h) \<notin> set (chs sm)" using open_sm_bound[OF op] by blast
  have new: "open_sm ?h' [(l, lm)]" by (simp add: lm make_chan_def)
  show "Store l lm sm \<noteq> []" by (rule update_nonempty)
  show "distinct (map fst (Store l lm sm))" using d by (rule distinct_update)
  show "open_sm ?h' (Store l lm sm)" "distinct (chs (Store l lm sm))"
    "set (chs (Store l lm sm)) \<subseteq> set (chs sm) \<union> {length (chans h)}"
  proof (atomize (full), cases "map_of sm l")
    case None
    then have "l \<notin> fst ` set sm" by (simp add: map_of_eq_None_iff)
    then have u: "Store l lm sm = sm @ [(l, lm)]" by (rule update_absent)
    have "open_sm ?h' (sm @ [(l, lm)])"
      using open_sm_alloc[OF op, of "make_chan cap"] new by (simp add: open_sm_def)
    moreover have "distinct (chs (sm @ [(l, lm)]))" using c fresh by (simp add: lm)
    moreover have "set (chs (sm @ [(l, lm)])) \<subseteq> set (chs sm) \<union> {length (chans h)}"
      by (auto simp: lm)
    ultimately show "open_sm ?h' (Store l lm sm) \<and> distinct (chs (Store l lm sm)) \<and>
      set (chs (Store l lm sm)) \<subseteq> set (chs sm) \<union> {length (chans h)}"
      unfolding u by blast
  next
    case (Some lm0)
    from update_present[OF Some, of lm] obtain xs ys where
      sm: "sm = xs @ (l, lm0) # ys" and u: "Store l lm sm = xs @ (l, lm) # ys" by blast
    have "open_sm ?h' (xs @ (l, lm) # ys)"
      using open_sm_alloc[OF op, of "make_chan cap"] new by (simp add: open_sm_def sm)
    moreover have "distinct (chs (xs @ (l, lm) # ys))"
      using c fresh by (auto simp: sm lm)
    moreover have "set (chs (xs @ (l, lm) # ys)) \<subseteq> set (chs sm) \<union> {length (chans h)}"
      by (auto simp: sm lm)
    ultimately show "open_sm ?h' (Store l lm sm) \<and> distinct (chs (Store l lm sm)) \<and>
      set (chs (Store l lm sm)) \<subseteq> set (chs sm) \<union> {length (chans h)}"
      unfolding u by blast
  qed
qed

lemma wf_state_On:
  assumes wf: "wf_state e h"
  shows "wf_state (fst (On e h topic l mws)) (snd (On e h topic l mws))"
proof -
  define lm :: "'a listenerManager" where
    "lm = \<lparr>lm_ch = length (chans h), lm_middlewares = mws, lm_listener = l\<rparr>"
  define h' where "h' = h\<lparr>chans := chans h @ [make_chan (Cap e)]\<rparr>"
  define rawMan where "rawMan = (case map_of (listMans e) topic of Some sm \<Rightarrow> sm | None \<Rightarrow> [])"
  define inner where "inner = Store l lm rawMan"
  have on: "On e h topic l mws = (e\<lparr>listMans := Store topic inner (listMans e)\<rparr>, h')"
    by (simp add: On_def newListenerManager_def lm_def h'_def rawMan_def inner_def)
  from wf have dk: "distinct (map fst (listMans e))"
    and ents: "\<And>entry. entry \<in> set (listMans e) \<Longrightarrow>
        snd entry \<noteq> [] \<and> distinct (map fst (snd entry)) \<and> open_sm h (snd entry)"
    and dc: "distinct (chs (concat (map snd (listMans e))))"
    by (auto simp: wf_state_def list_all_iff)
  have old: "snd entry \<noteq> [] \<and> distinct (map fst (snd entry)) \<and> open_sm h' (snd entry)"
    if "entry \<in> set (listMans e)" for entry
    using ents[OF that] by (simp add: h'_def open_sm_alloc)
  have bound: "a < length (chans h)" if "a \<in> set (chs (concat (map snd (listMans e))))" for a
  proof -
    from that obtain entry where "entry \<in> set (listMans e)" "a \<in> set (chs (snd entry))"
      by (auto simp: chs_def)
    with ents show ?thesis by (blast intro: open_sm_bound)
  qed
  have raw: "distinct (map fst rawMan)" "distinct (chs rawMan)" "open_sm h rawMan"
  proof (atomize (full), cases "map_of (listMans e) topic")
    case None
    then show "distinct (map fst rawMan) \<and> distinct (chs rawMan) \<and> open_sm h rawMan"
      by (simp add: rawMan_def)
  next
    case (Some sm)
    from wf_state_entry[OF wf Some] Some
    show "distinct (map fst rawMan) \<and> distinct (chs rawMan) \<and> open_sm h rawMan"
      by (simp add: rawMan_def)
  qed
  note inn = inner_Store(1,2,4,5)[OF raw lm_def, folded inner_def]
  note inn3 = inner_Store(3)[OF raw lm_def, where cap="Cap e", folded inner_def h'_def]
  have innE: "inner \<noteq> [] \<and> distinct (map fst inner) \<and> open_sm h' inner"
    using inn(1,2) inn3 by simp
  have 1: "distinct (map fst (Store topic inner (listMans e)))"
    using dk by (rule distinct_update)
  have 23: "list_all (\<lambda>entry. snd entry \<noteq> [] \<and> distinct (map fst (snd entry)) \<and> open_sm h' (snd entry))
              (Store topic inner (listMans e)) \<and>
            distinct (chs (concat (map snd (Store topic inner (listMans e)))))"
  proof (cases "map_of (listMans e) topic")
    case None
    then have "topic \<notin> fst ` set (listMans e)" by (simp add: map_of_eq_None_iff)
    then have u: "Store topic inner (listMans e) = listMans e @ [(topic, inner)]"
      by (rule update_absent)
    have r: "rawMan = []" using None by (simp add: rawMan_def)
    have "set (chs inner) \<subseteq> {length (chans h)}" using inn(4) by (simp add: r)
    then have "set (chs (concat (map snd (listMans e)))) \<inter> set (chs inner) = {}"
      using bound by fastforce
    then show ?thesis
      unfolding u using old innE dc inn(3) by (simp add: list_all_iff)
  next
    case (Some sm)
    from update_present[OF Some, of inner] obtain xs ys where
      l: "listMans e = xs @ (topic, sm) # ys" and u: "Store topic inner (listMans e) = xs @ (topic, inner) # ys"
      by blast
    have r: "rawMan = sm" using Some by (simp add: rawMan_def)
    have fresh: "length (chans h) \<notin> set (chs (concat (map snd xs))) \<union> set (chs (concat (map snd ys)))"
      using bound by (fastforce simp: l)
    have "distinct (chs (concat (map snd xs)) @ chs sm @ chs (concat (map snd ys)))"
      using dc by (simp add: l)
    from distinct_replace[OF this inn(3) inn(4)[unfolded r] fresh]
    have d: "distinct (chs (concat (map snd (xs @ (topic, inner) # ys))))" by simp
    have "list_all (\<lambda>entry. snd entry \<noteq> [] \<and> distinct (map fst (snd entry)) \<and> open_sm h' (snd entry))
            (xs @ (topic, inner) # ys)"
      using old innE by (simp add: list_all_iff l)
    with d show ?thesis unfolding u by blast
  qed
  show ?thesis unfolding on using 1 23 by (simp add: wf_state_def)
qed

lemma wf_state_Use: "wf_state (Use e pattern mws) h = wf_state e h"
  by (simp add: Use_def wf_state_def)

lemma wf_state_pushEvent:
  "pushEvent pick done h a event = Some (res, h1) \<Longrightarrow> wf_state e h1 = wf_state e h"
  by (rule wf_state_frame) (simp_all add: pushEvent_frame)

lemma wf_state_Emit:
  assumes "event < length (events h)"
  shows "wf_state e' (fst (Emit pm e h event)) = wf_state e' h"
proof -
  have ok0: "launched_ok h (length (events h)) []" by (simp add: launched_ok_def)
  from foldl_Emit_topic_inv[OF assms ok0 assms le_refl, where pm=pm and e=e
      and ts="fst (matched pm e (Topic (events h ! event)))"]
  have "chans (fst (Emit pm e h event)) = chans h" by (simp add: Emit_def)
  then show ?thesis by (simp add: wf_state_def open_sm_def)
qed

text \<open>An example: capacity 0, listeners 1, 2 and 3 subscribed to \<^verbatim>\<open>"a"\<close>, \<^verbatim>\<open>"b"\<close> and \<^verbatim>\<open>"a*"\<close>.\<close>

definition ex_three :: "unit Emitter \<times> unit heap" where
  "ex_three =
     (case On (New 0) \<lparr>events = [], chans = []\<rparr> ''a'' 1 [] of (e1, h1) \<Rightarrow>
      case On e1 h1 ''b'' 2 [] of (e2, h2) \<Rightarrow> On e2 h2 ''a*'' 3 [])"

lemma ex_three_eq:
  "ex_three =
     (\<lparr>Cap = 0,
       listMans = [(''a'', [(1, \<lparr>lm_ch = 0, lm_middlewares = [], lm_listener = 1\<rparr>)]),
                   (''b'', [(2, \<lparr>lm_ch = 1, lm_middlewares = [], lm_listener = 2\<rparr>)]),
                   (''a*'', [(3, \<lparr>lm_ch = 2, lm_middlewares = [], lm_listener = 3\<rparr>)])],
       middlewares = []\<rparr>,
      \<lparr>events = [], chans = [make_chan 0, make_chan 0, make_chan 0]\<rparr>)"
  by (simp add: ex_three_def On_def New_def newListenerManager_def)


lemma ex_three_matched: "fst (matched path_Match (fst ex_three) ''a'') = [''a'', ''a*'']"
  by (simp add: ex_three_eq matched_def path_Match_a_a path_Match_a_b path_Match_b_a
      path_Match_a_astar path_Match_astar_a)

lemma ex_three_wf: "wf_state (fst ex_three) (snd ex_three)"
  by (simp add: ex_three_eq wf_state_def open_sm_def chs_def make_chan_def)


text \<open>
  C9 (as amended). On a well-formed state, with \<open>M\<close> the topics that the wildcard
  resolution returns for \<open>topic\<close> (every registered topic matching \<open>topic\<close> in either
  direction when no \<open>pm topic K\<close> reports a malformed pattern, see C1): \<^verbatim>\<open>Off(topic)\<close> with
  no listeners returns without a panic, deletes exactly the entries of the topics in \<open>M\<close>,
  so that \<^verbatim>\<open>Topics()\<close> no longer lists them, and closes the mailboxes of all their
  subscriptions; a second \<^verbatim>\<open>Off(topic)\<close> changes nothing. Every \<^verbatim>\<open>Off\<close> call, with or without
  listeners, leaves a well-formed state, in particular no entry with an empty inner map.
  \<^verbatim>\<open>Off(topic, listeners...)\<close> with listeners none of which is subscribed under a resolved
  topic changes nothing.
\<close>

theorem Off_removes_resolved_topics:
  assumes wf: "wf_state e h"
  shows "Off pm e h topic [] =
           Inr (e\<lparr>listMans := filter (\<lambda>entry. fst entry \<notin> set (fst (matched pm e topic))) (listMans e)\<rparr>,
                closeAll (chs (concat (map snd
                  (filter (\<lambda>entry. fst entry \<in> set (fst (matched pm e topic))) (listMans e))))) h) \<and>
         Topics (e\<lparr>listMans := filter (\<lambda>entry. fst entry \<notin> set (fst (matched pm e topic))) (listMans e)\<rparr>) =
           filter (\<lambda>K. K \<notin> set (fst (matched pm e topic))) (Topics e) \<and>
         list_all (\<lambda>a. ch_closed (chans (closeAll (chs (concat (map snd
                  (filter (\<lambda>entry. fst entry \<in> set (fst (matched pm e topic))) (listMans e))))) h) ! a))
           (chs (concat (map snd
                  (filter (\<lambda>entry. fst entry \<in> set (fst (matched pm e topic))) (listMans e))))) \<and>
         Off pm (e\<lparr>listMans := filter (\<lambda>entry. fst entry \<notin> set (fst (matched pm e topic))) (listMans e)\<rparr>)
             (closeAll (chs (concat (map snd
                  (filter (\<lambda>entry. fst entry \<in> set (fst (matched pm e topic))) (listMans e))))) h) topic [] =
           Inr (e\<lparr>listMans := filter (\<lambda>entry. fst entry \<notin> set (fst (matched pm e topic))) (listMans e)\<rparr>,
                closeAll (chs (concat (map snd
                  (filter (\<lambda>entry. fst entry \<in> set (fst (matched pm e topic))) (listMans e))))) h) \<and>
         (\<exists>e' h'. Off pm e h topic ls = Inr (e', h') \<and> wf_state e' h' \<and>
            list_all (\<lambda>entry. snd entry \<noteq> []) (listMans e')) \<and>
         (ls \<noteq> [] \<and> set ls \<inter> set (Listeners pm e topic) = {} \<longrightarrow> Off pm e h topic ls = Inr (e, h))"
proof -
  let ?M = "fst (matched pm e topic)"
  let ?e' = "e\<lparr>listMans := filter (\<lambda>entry. fst entry \<notin> set ?M) (listMans e)\<rparr>"
  let ?as = "chs (concat (map snd (filter (\<lambda>entry. fst entry \<in> set ?M) (listMans e))))"
  let ?h' = "closeAll ?as h"
  have 1: "Off pm e h topic [] = Inr (?e', ?h')"
    by (simp add: Off_eq[OF wf] off_registry_all dropped_chs_all)
  have 2: "Topics ?e' = filter (\<lambda>K. K \<notin> set ?M) (Topics e)"
    by (simp add: Topics_def filter_map comp_def)
  have valid: "a < length (chans h)" if "a \<in> set ?as" for a
  proof -
    from that obtain entry x where "entry \<in> set (listMans e)" "x \<in> set (snd entry)" "a = lm_ch (snd x)"
      by (auto simp: chs_def)
    with wf_state_sub(2)[OF wf] show ?thesis by blast
  qed
  have 3: "list_all (\<lambda>a. ch_closed (chans ?h' ! a)) ?as"
    unfolding list_all_iff using valid by (auto intro: closeAll_closed)
  have "fst (matched pm ?e' topic) = []" by (rule matched_after_off_all[OF refl])
  then have 4: "Off pm ?e' ?h' topic [] = Inr (?e', ?h')" by (simp add: Off_def)
  have wf': "wf_state (e\<lparr>listMans := off_registry ls ?M (listMans e)\<rparr>)
               (closeAll (dropped_chs ls ?M (listMans e)) h)"
    by (rule wf_state_off_registry[OF wf])
  then have "list_all (\<lambda>entry. snd entry \<noteq> []) (listMans (e\<lparr>listMans := off_registry ls ?M (listMans e)\<rparr>))"
    by (simp add: wf_state_def list_all_iff)
  with wf' have 5: "\<exists>e' h'. Off pm e h topic ls = Inr (e', h') \<and> wf_state e' h' \<and>
            list_all (\<lambda>entry. snd entry \<noteq> []) (listMans e')"
    unfolding Off_eq[OF wf] by blast
  have 6: "ls \<noteq> [] \<and> set ls \<inter> set (Listeners pm e topic) = {} \<longrightarrow> Off pm e h topic ls = Inr (e, h)"
    using Off_absent_listeners[OF wf] by blast
  from 1 2 3 4 5 6 show ?thesis by (intro conjI)
qed


theorem Off_removes_resolved_topics_witness:
  "wf_state (fst ex_three) (snd ex_three) \<and>
   Topics (fst (projr (Off path_Match (fst ex_three) (snd ex_three) ''a'' []))) = [''b''] \<and>
   map ch_closed (chans (snd (projr (Off path_Match (fst ex_three) (snd ex_three) ''a'' [])))) =
     [True, False, True] \<and>
   Off path_Match (fst (projr (Off path_Match (fst ex_three) (snd ex_three) ''a'' [])))
       (snd (projr (Off path_Match (fst ex_three) (snd ex_three) ''a'' []))) ''a'' [] =
     Off path_Match (fst ex_three) (snd ex_three) ''a'' [] \<and>
   Off path_Match (fst ex_three) (snd ex_three) ''a'' [7] = Inr (fst ex_three, snd ex_three)"
proof -
  note t = Off_removes_resolved_topics[OF ex_three_wf, of path_Match "''a''" "[7]"]
  have L: "Listeners path_Match (fst ex_three) ''a'' = [1, 3]"
    by (simp add: Listeners_def ex_three_matched) (simp add: ex_three_eq)
  from t have off: "Off path_Match (fst ex_three) (snd ex_three) ''a'' [] =
      Inr (fst ex_three\<lparr>listMans := filter (\<lambda>entry. fst entry \<notin> set [''a'', ''a*'']) (listMans (fst ex_three))\<rparr>,
           closeAll (chs (concat (map snd
             (filter (\<lambda>entry. fst entry \<in> set [''a'', ''a*'']) (listMans (fst ex_three)))))) (snd ex_three))"
    by (simp add: ex_three_matched)
  have 2: "Topics (fst (projr (Off path_Match (fst ex_three) (snd ex_three) ''a'' []))) = [''b'']"
    unfolding off by (simp add: ex_three_eq Topics_def)
  have 3: "map ch_closed (chans (snd (projr (Off path_Match (fst ex_three) (snd ex_three) ''a'' [])))) =
     [True, False, True]"
    unfolding off by (simp add: ex_three_eq closeAll_def chs_def make_chan_def)
  from t have 4: "Off path_Match (fst (projr (Off path_Match (fst ex_three) (snd ex_three) ''a'' [])))
       (snd (projr (Off path_Match (fst ex_three) (snd ex_three) ''a'' []))) ''a'' [] =
     Off path_Match (fst ex_three) (snd ex_three) ''a'' []"
    by simp
  from t have 5: "Off path_Match (fst ex_three) (snd ex_three) ''a'' [7] = Inr (fst ex_three, snd ex_three)"
    by (simp add: L)
  from ex_three_wf 2 3 4 5 show ?thesis by blast
qed


text \<open>
  C9 as stated fails for a malformed topic: with one subscription under \<^verbatim>\<open>"*"\<close>, which
  matches \<^verbatim>\<open>"["\<close> (\<^verbatim>\<open>path.Match("*", "[")\<close> succeeds), \<^verbatim>\<open>Off("[")\<close> removes nothing.
\<close>

theorem Off_malformed_topic_removes_nothing:
  "path_Match ''*'' ''['' = Inr True \<and>
   Topics (fst (On (New 0) \<lparr>events = ([] :: unit Event list), chans = []\<rparr> ''*'' 1 [])) = [''*''] \<and>
   Off path_Match (fst (On (New 0) \<lparr>events = ([] :: unit Event list), chans = []\<rparr> ''*'' 1 []))
       (snd (On (New 0) \<lparr>events = ([] :: unit Event list), chans = []\<rparr> ''*'' 1 [])) ''['' [] =
     Inr (On (New 0) \<lparr>events = ([] :: unit Event list), chans = []\<rparr> ''*'' 1 [])"
  by (simp add: path_Match_star_bracket path_Match_bracket_star On_def New_def
      newListenerManager_def Topics_def matched_def Off_def)

section \<open>Once-flagged deliveries\<close>

text \<open>The example of the section on \<^verbatim>\<open>Emit\<close>, after the emit: the store, and the manager of
  listener 2, whose clone (at address 2) has the Once bit.\<close>

definition ex_lm2 :: "unit listenerManager" where
  "ex_lm2 = \<lparr>lm_ch = 1, lm_middlewares = [Once], lm_listener = 2\<rparr>"

definition ex_heap2 :: "unit heap" where
  "ex_heap2 = fst (Emit path_Match (fst ex_state) (snd ex_state) 0)"

lemma ex_heap2_eq:
  "ex_heap2 = \<lparr>events = [BasicEvent ''a'' 4 (), BasicEvent ''a'' 6 (), BasicEvent ''a'' 5 ()],
       chans = [make_chan 1, make_chan 1]\<rparr>"
  by (simp add: ex_heap2_def ex_Emit)

lemma ex_wf2: "wf_state (fst ex_state) ex_heap2"
  by (simp add: ex_state_eq ex_heap2_eq wf_state_def open_sm_def chs_def make_chan_def)

lemma ex_push:
  "pushEvent False False ex_heap2 (lm_ch ex_lm2) 2 =
     Some ((True, True, None), ex_heap2\<lparr>chans := [make_chan 1, (make_chan 1)\<lparr>ch_buf := [2]\<rparr>]\<rparr>)"
  by (simp add: pushEvent_def ex_heap2_eq ex_lm2_def send_def send_body_def select_send_def
      send_ready_def chan_send_def make_chan_def flag_values)

lemma ex_topic2: "Topic (events ex_heap2 ! 2) = ''a''"
  by (simp add: ex_heap2_eq)

lemma ex_deliver:
  "deliver path_Match False False (fst ex_state, ex_heap2) (ex_lm2, 2) =
     Some (Inr (fst ex_state\<lparr>listMans := [(''a'', [(1, \<lparr>lm_ch = 0, lm_middlewares = [Void], lm_listener = 1\<rparr>)])]\<rparr>,
                ex_heap2\<lparr>chans := [make_chan 1,
                   (make_chan 1)\<lparr>ch_buf := [2], ch_closed := True, recv_parked := False\<rparr>]\<rparr>))"
proof -
  have m: "fst (matched path_Match (fst ex_state) ''a'') = [''a'']" by (rule ex_matched)
  have t: "Topic (events (ex_heap2\<lparr>chans := [make_chan 1, (make_chan 1)\<lparr>ch_buf := [2]\<rparr>]\<rparr>) ! 2) = ''a''"
    by (simp add: ex_heap2_eq)
  have off: "Off path_Match (fst ex_state) (ex_heap2\<lparr>chans := [make_chan 1, (make_chan 1)\<lparr>ch_buf := [2]\<rparr>]\<rparr>)
      ''a'' [lm_listener ex_lm2] =
     Inr (fst ex_state\<lparr>listMans := [(''a'', [(1, \<lparr>lm_ch = 0, lm_middlewares = [Void], lm_listener = 1\<rparr>)])]\<rparr>,
                ex_heap2\<lparr>chans := [make_chan 1,
                   (make_chan 1)\<lparr>ch_buf := [2], ch_closed := True, recv_parked := False\<rparr>]\<rparr>)"
    unfolding Off_def m
    by (simp add: ex_state_eq ex_heap2_eq ex_lm2_def Off_entry_def drop_listener_def close_ch_def
        chan_close_def make_chan_def)
  show ?thesis
    unfolding deliver_def prod.case ex_push option.case t
    by (simp only: off if_True)
qed


text \<open>
  C3. A delivery attempt for a subscription (manager \<open>lm\<close>, registered under the topic key
  \<open>K\<close> that the resolution of the event's topic returns, as is every attempt that \<^verbatim>\<open>Emit\<close>
  launches) whose event has the Once bit, on a well-formed state: when \<^verbatim>\<open>pushEvent\<close> reports \<open>success\<close>, it reports \<open>remove\<close>, and the
  goroutine goes on to \<^verbatim>\<open>Off(event.Topic(), lm.listener)\<close>, which returns without a panic
  and leaves a well-formed state in which the mailbox of \<open>lm\<close> is closed, the registry has
  no entry for the listener under \<open>K\<close>, \<^verbatim>\<open>Listeners(topic)\<close> does not list the listener, and
  no later \<^verbatim>\<open>Emit\<close> of an event with that topic launches an attempt for that listener or
  on that mailbox.
\<close>

theorem once_sent_removes_subscription:
  assumes wf: "wf_state e h"
    and reg: "map_of (listMans e) K = Some sm" "map_of sm (lm_listener lm) = Some lm"
    and matched: "K \<in> set (fst (matched pm e (Topic (events h ! event))))"
    and once: "(Flag (events h ! event) OR FlagOnce) = Flag (events h ! event)"
    and sent: "pushEvent pick done h (lm_ch lm) event = Some ((True, remove, err), h1)"
  shows "remove \<and> err = None \<and>
         (\<exists>e' h'. deliver pm pick done (e, h) (lm, event) = Some (Inr (e', h')) \<and>
            wf_state e' h' \<and>
            ch_closed (chans h' ! lm_ch lm) \<and>
            (case map_of (listMans e') K of None \<Rightarrow> True | Some sm' \<Rightarrow> map_of sm' (lm_listener lm) = None) \<and>
            lm_listener lm \<notin> set (Listeners pm e' (Topic (events h ! event))) \<and>
            (\<forall>h2 ev2. ev2 < length (events h2) \<and> Topic (events h2 ! ev2) = Topic (events h ! event) \<longrightarrow>
               (\<forall>att \<in> set (snd (Emit pm e' h2 ev2)).
                  lm_listener (fst att) \<noteq> lm_listener lm \<and> lm_ch (fst att) \<noteq> lm_ch lm)))"
proof -
  let ?T = "Topic (events h ! event)"
  let ?l = "lm_listener lm"
  let ?M = "fst (matched pm e ?T)"
  let ?e' = "e\<lparr>listMans := off_registry [?l] ?M (listMans e)\<rparr>"
  let ?h' = "closeAll (dropped_chs [?l] ?M (listMans e)) h1"
  note fr = pushEvent_frame[OF sent]
  note ps = pushEvent_sent[OF sent]
  from ps once have rm: "remove" "err = None" by simp_all
  have wf1: "wf_state e h1" using wf wf_state_frame[OF fr(2,3)] by blast
  have T1: "Topic (events h1 ! event) = ?T" by (simp add: fr(1))
  have del: "deliver pm pick done (e, h) (lm, event) = Some (Inr (?e', ?h'))"
    using rm by (simp add: deliver_def sent T1 Off_eq[OF wf1])
  have wf': "wf_state ?e' ?h'" by (rule wf_state_off_registry[OF wf1])
  have memK: "(K, sm) \<in> set (listMans e)" using reg(1) by (rule map_of_SomeD)
  have meml: "(?l, lm) \<in> set sm" using reg(2) by (rule map_of_SomeD)
  from memK meml matched have "lm_ch lm \<in> set (dropped_chs [?l] ?M (listMans e))"
    by (force simp: dropped_chs_def dropped_def chs_def)
  moreover from wf_state_sub(2)[OF wf1 memK, of "(?l, lm)"] meml
  have v: "lm_ch lm < length (chans h1)" by simp
  ultimately have closed: "ch_closed (chans ?h' ! lm_ch lm)" by (rule closeAll_closed)
  have none: "fst x \<noteq> ?l \<and> lm_listener (snd x) \<noteq> ?l"
    if "t \<in> set (fst (matched pm ?e' ?T))" "x \<in> set (subscriptions ?e' t)" for t x
    by (rule Off_one_removes[OF wf refl that])
  have entry: "case map_of (listMans ?e') K of None \<Rightarrow> True | Some sm' \<Rightarrow> map_of sm' ?l = None"
  proof (cases "map_of (listMans ?e') K")
    case None
    then show ?thesis by simp
  next
    case (Some sm')
    then have "(K, sm') \<in> set (off_registry [?l] ?M (listMans e))"
      using map_of_SomeD by fastforce
    from off_registry_entry[OF this] obtain entry0 where
      "fst entry0 = K" "sm' = keep_of [?l] ?M entry0" by auto
    with matched have "sm' = remaining [?l] (snd entry0)" by (simp add: keep_of_eq)
    then have "?l \<notin> fst ` set sm'" by (auto simp: remaining_def)
    then have "map_of sm' ?l = None" by (simp add: map_of_eq_None_iff)
    with Some show ?thesis by simp
  qed
  have lis: "?l \<notin> set (Listeners pm ?e' ?T)"
  proof
    assume "?l \<in> set (Listeners pm ?e' ?T)"
    then obtain x entry where "entry \<in> set (listMans ?e')" "fst entry \<in> set (fst (matched pm ?e' ?T))"
      "x \<in> set (snd entry)" "?l = lm_listener (snd x)"
      unfolding Listeners_set by blast
    then have "fst entry \<in> set (fst (matched pm ?e' ?T))" "x \<in> set (subscriptions ?e' (fst entry))"
      "lm_listener (snd x) = ?l"
      by (auto simp: subscriptions_mem)
    with none show False by blast
  qed
  have later: "lm_listener (fst att) \<noteq> ?l \<and> lm_ch (fst att) \<noteq> lm_ch lm"
    if ev2: "ev2 < length (events h2)" and T2: "Topic (events h2 ! ev2) = ?T"
      and att: "att \<in> set (snd (Emit pm ?e' h2 ev2))" for h2 :: "'a heap" and ev2 att
  proof -
    from Emit_launched[OF ev2 att] T2 obtain t x where
      tx: "t \<in> set (fst (matched pm ?e' ?T))" "x \<in> set (subscriptions ?e' t)" "fst att = snd x"
      by auto
    from none[OF tx(1,2)] tx(3) have a: "lm_listener (fst att) \<noteq> ?l" by simp
    from tx(2) obtain entry where "entry \<in> set (listMans ?e')" "x \<in> set (snd entry)"
      by (auto simp: subscriptions_mem)
    then have "\<not> ch_closed (chans ?h' ! lm_ch (snd x))"
      by (rule wf_state_sub(3)[OF wf'])
    with closed tx(3) have "lm_ch (fst att) \<noteq> lm_ch lm" by auto
    with a show ?thesis by simp
  qed
  from rm del wf' closed entry lis later show ?thesis by blast
qed



theorem once_sent_removes_subscription_witness:
  "wf_state (fst ex_state) ex_heap2 \<and>
   pushEvent False False ex_heap2 (lm_ch ex_lm2) 2 =
     Some ((True, True, None), ex_heap2\<lparr>chans := [make_chan 1, (make_chan 1)\<lparr>ch_buf := [2]\<rparr>]\<rparr>) \<and>
   Listeners path_Match (fst ex_state) ''a'' = [1, 2] \<and>
   Listeners path_Match (fst (projr (the (deliver path_Match False False (fst ex_state, ex_heap2) (ex_lm2, 2))))) ''a'' = [1] \<and>
   ch_closed (chans (snd (projr (the (deliver path_Match False False (fst ex_state, ex_heap2) (ex_lm2, 2))))) ! 1)"
proof -
  have reg1: "map_of (listMans (fst ex_state)) ''a'' =
      Some [(1, \<lparr>lm_ch = 0, lm_middlewares = [Void], lm_listener = 1\<rparr>), (2, ex_lm2)]"
    by (simp add: ex_state_eq ex_lm2_def)
  have reg2: "map_of [(1, \<lparr>lm_ch = 0, lm_middlewares = [Void], lm_listener = 1\<rparr>), (2, ex_lm2)]
      (lm_listener ex_lm2) = Some ex_lm2"
    by (simp add: ex_lm2_def)
  have mt: "''a'' \<in> set (fst (matched path_Match (fst ex_state) (Topic (events ex_heap2 ! 2))))"
    by (simp add: ex_topic2 ex_matched)
  have once: "(Flag (events ex_heap2 ! 2) OR FlagOnce) = Flag (events ex_heap2 ! 2)"
    by (simp add: ex_heap2_eq flag_values)
  note t = once_sent_removes_subscription[OF ex_wf2 reg1 reg2 mt once ex_push]
  from t obtain e' h' where
    d: "deliver path_Match False False (fst ex_state, ex_heap2) (ex_lm2, 2) = Some (Inr (e', h'))"
    and c: "ch_closed (chans h' ! lm_ch ex_lm2)"
    by blast
  from d c have 5: "ch_closed (chans (snd (projr (the (deliver path_Match False False
      (fst ex_state, ex_heap2) (ex_lm2, 2))))) ! 1)"
    by (simp add: ex_lm2_def)
  have 3: "Listeners path_Match (fst ex_state) ''a'' = [1, 2]"
    by (simp add: Listeners_def ex_matched) (simp add: ex_state_eq)
  have m': "fst (matched path_Match
      (fst ex_state\<lparr>listMans := [(''a'', [(1, \<lparr>lm_ch = 0, lm_middlewares = [Void], lm_listener = 1\<rparr>)])]\<rparr>) ''a'') = [''a'']"
    by (simp add: matched_def path_Match_a_a)
  have 4: "Listeners path_Match (fst (projr (the (deliver path_Match False False
      (fst ex_state, ex_heap2) (ex_lm2, 2))))) ''a'' = [1]"
    unfolding ex_deliver by (simp add: Listeners_def matched_def path_Match_a_a)
  from ex_wf2 ex_push 3 4 5 show ?thesis by blast
qed

end
